theory Spec2Isabelle
  imports Complex_Main "HOL-Library.Multiset"
begin

chapter \<open>The sampling-based planner and its executive\<close>

text \<open>
  A shallow embedding of \<^verbatim>\<open>SamplingBasedPlanner.cpp\<close> (open list, goal test, expansion,
  planning loop) and of the parts of \<^verbatim>\<open>executive.cpp\<close> that update coverage and drive the
  planner, followed by the properties proved of them. Classes and functions that these two
  files use but do not define are parameters of the model or, where a record is needed,
  modelled from the specification.
\<close>

section \<open>Binary heaps on vectors\<close>

text \<open>
  The planner keeps its open list and its candidate sets in \<^verbatim>\<open>std::vector\<close>s that it
  maintains with \<^verbatim>\<open>std::push_heap\<close>, \<^verbatim>\<open>std::pop_heap\<close> and \<^verbatim>\<open>std::make_heap\<close>.
  These belong to the C++ library, not to the repository. A vector is a list here, and the
  three functions are the textbook array heap, which does what the C++ standard requires of
  them: the parent of position \<open>i\<close> is \<open>(i - 1) div 2\<close>, \<open>cmp a b\<close> reads "\<open>a\<close> is ordered
  before \<open>b\<close>", and the front of a heap is an element that is ordered before no other.
  Which of several such elements is at the front is left open by the standard; no
  property proved below depends on it.
\<close>

definition swap :: "'a list \<Rightarrow> nat \<Rightarrow> nat \<Rightarrow> 'a list" where
  "swap xs i j = xs[i := xs ! j, j := xs ! i]"

definition parent :: "nat \<Rightarrow> nat" where
  "parent i = (i - 1) div 2"

function sift_up :: "('a \<Rightarrow> 'a \<Rightarrow> bool) \<Rightarrow> 'a list \<Rightarrow> nat \<Rightarrow> 'a list" where
  "sift_up cmp xs i =
     (if 0 < i \<and> i < length xs \<and> cmp (xs ! parent i) (xs ! i)
      then sift_up cmp (swap xs (parent i) i) (parent i)
      else xs)"
  by pat_completeness auto
termination
  by (relation "measure (\<lambda>(cmp, xs, i). i)") (auto simp: parent_def)

text \<open>\<^verbatim>\<open>std::push_heap(first, last, cmp)\<close>: the element at \<open>last - 1\<close> is moved up
  into the heap \<open>[first, last - 1)\<close>.\<close>

definition push_heap :: "('a \<Rightarrow> 'a \<Rightarrow> bool) \<Rightarrow> 'a list \<Rightarrow> 'a list" where
  "push_heap cmp xs = sift_up cmp xs (length xs - 1)"

text \<open>The position, among \<open>i\<close> and its children inside \<open>[0, n)\<close>, of an element that is
  ordered before neither of the other two.\<close>

definition largest :: "('a \<Rightarrow> 'a \<Rightarrow> bool) \<Rightarrow> 'a list \<Rightarrow> nat \<Rightarrow> nat \<Rightarrow> nat" where
  "largest cmp xs n i =
     (let m = (if 2 * i + 1 < n \<and> cmp (xs ! i) (xs ! (2 * i + 1)) then 2 * i + 1 else i)
      in if 2 * i + 2 < n \<and> cmp (xs ! m) (xs ! (2 * i + 2)) then 2 * i + 2 else m)"

lemma largest_range: "largest cmp xs n i \<noteq> i \<Longrightarrow> i < largest cmp xs n i \<and> largest cmp xs n i < n"
  by (auto simp: largest_def Let_def split: if_splits)

function sift_down :: "('a \<Rightarrow> 'a \<Rightarrow> bool) \<Rightarrow> 'a list \<Rightarrow> nat \<Rightarrow> nat \<Rightarrow> 'a list" where
  "sift_down cmp xs n i =
     (if largest cmp xs n i \<noteq> i
      then sift_down cmp (swap xs i (largest cmp xs n i)) n (largest cmp xs n i)
      else xs)"
  by pat_completeness auto
termination
proof (relation "measure (\<lambda>(cmp, xs, n, i). n - i)")
  show "wf (measure (\<lambda>(cmp, xs, n, i). n - i))" by simp
next
  fix cmp :: "'a \<Rightarrow> 'a \<Rightarrow> bool" and xs :: "'a list" and n i :: nat
  assume "largest cmp xs n i \<noteq> i"
  then have "i < largest cmp xs n i \<and> largest cmp xs n i < n"
    by (rule largest_range)
  then show "((cmp, swap xs i (largest cmp xs n i), n, largest cmp xs n i), (cmp, xs, n, i))
      \<in> measure (\<lambda>(cmp, xs, n, i). n - i)"
    by auto
qed

declare sift_up.simps [simp del] sift_down.simps [simp del]

text \<open>\<^verbatim>\<open>std::pop_heap(first, first + n, cmp)\<close>: the front is exchanged with the element
  at \<open>n - 1\<close> and \<open>[0, n - 1)\<close> is made a heap again.\<close>

definition pop_heap :: "('a \<Rightarrow> 'a \<Rightarrow> bool) \<Rightarrow> 'a list \<Rightarrow> nat \<Rightarrow> 'a list" where
  "pop_heap cmp xs n = (if n \<le> 1 then xs else sift_down cmp (swap xs 0 (n - 1)) (n - 1) 0)"

text \<open>\<^verbatim>\<open>std::make_heap(first, last, cmp)\<close>: every inner position is sifted down, the
  last one first.\<close>

definition make_heap :: "('a \<Rightarrow> 'a \<Rightarrow> bool) \<Rightarrow> 'a list \<Rightarrow> 'a list" where
  "make_heap cmp xs =
     fold (\<lambda>i ys. sift_down cmp ys (length xs) i) (rev [0 ..< length xs div 2]) xs"

text \<open>None of the heap functions changes the length of the vector.\<close>

lemma length_swap [simp]: "length (swap xs i j) = length xs"
  by (simp add: swap_def)

lemma length_sift_up [simp]: "length (sift_up cmp xs i) = length xs"
  by (induction cmp xs i rule: sift_up.induct) (subst sift_up.simps, simp)

lemma length_sift_down [simp]: "length (sift_down cmp xs n i) = length xs"
  by (induction cmp xs n i rule: sift_down.induct) (subst sift_down.simps, simp)

lemma length_push_heap [simp]: "length (push_heap cmp xs) = length xs"
  by (simp add: push_heap_def)

lemma length_pop_heap [simp]: "length (pop_heap cmp xs n) = length xs"
  by (simp add: pop_heap_def)

text \<open>The heap property of the prefix \<open>[0, n)\<close>: no element is ordered after its parent.\<close>

definition is_heap :: "('a \<Rightarrow> 'a \<Rightarrow> bool) \<Rightarrow> 'a list \<Rightarrow> nat \<Rightarrow> bool" where
  "is_heap cmp xs n = (\<forall>j. 0 < j \<and> j < n \<longrightarrow> \<not> cmp (xs ! parent j) (xs ! j))"

text \<open>Both comparators of the planner's heaps compare a key: the depth of a vertex, or the
  approximate cost of its parent edge.\<close>

definition by_key :: "('a \<Rightarrow> 'k::linorder) \<Rightarrow> 'a \<Rightarrow> 'a \<Rightarrow> bool" where
  "by_key key a b = (key a < key b)"

text \<open>While an element moves up from position \<open>i\<close>, the heap property holds everywhere
  but between \<open>i\<close> and its parent, and the children of \<open>i\<close> respect its parent.\<close>

definition up_inv :: "('a \<Rightarrow> 'k::linorder) \<Rightarrow> 'a list \<Rightarrow> nat \<Rightarrow> nat \<Rightarrow> bool" where
  "up_inv key xs n i =
     ((\<forall>j. 0 < j \<and> j < n \<and> j \<noteq> i \<longrightarrow> key (xs ! j) \<le> key (xs ! parent j)) \<and>
      (\<forall>j. 0 < j \<and> j < n \<and> parent j = i \<and> 0 < i \<longrightarrow> key (xs ! j) \<le> key (xs ! parent i)))"

text \<open>While an element moves down from position \<open>i\<close>, the heap property holds everywhere
  but between \<open>i\<close> and its children, which respect the parent of \<open>i\<close>.\<close>

definition down_inv :: "('a \<Rightarrow> 'k::linorder) \<Rightarrow> 'a list \<Rightarrow> nat \<Rightarrow> nat \<Rightarrow> bool" where
  "down_inv key xs n i =
     ((\<forall>j. 0 < j \<and> j < n \<and> parent j \<noteq> i \<longrightarrow> key (xs ! j) \<le> key (xs ! parent j)) \<and>
      (\<forall>j. 0 < j \<and> j < n \<and> parent j = i \<and> 0 < i \<longrightarrow> key (xs ! j) \<le> key (xs ! parent i)))"

section \<open>Data model of the planner\<close>

text \<open>
  The \<^verbatim>\<open>double\<close>s of the planner are only compared and, in the goal test, added once;
  they are modelled by \<open>real\<close>, so rounding, infinities and NaN are outside the model.
\<close>

record State =
  State_x :: real
  State_y :: real
  State_heading :: real
  State_speed :: real
  State_time :: real

text \<open>Modelled from the spec: the classes \<^verbatim>\<open>Edge\<close> and \<^verbatim>\<open>Vertex\<close> are declared outside
  the planner's source file. An edge carries an approximate cost, a true cost, the
  infeasible flag and the coverage-mode flag (with the turning radius of its policy); a
  vertex holds a state, its depth, its parent edge (absent for the root), its cumulative
  cost, its cached heuristic-to-go and whether its coverage objective is complete.\<close>

record Edge =
  Edge_infeasible :: bool
  Edge_approxCost :: real
  Edge_trueCost :: real
  Edge_coverage :: bool
  Edge_turningRadius :: real

record Vertex =
  Vertex_state :: State
  Vertex_parentEdge :: "Edge option"
  Vertex_getDepth :: int
  Vertex_currentCost :: real
  Vertex_approxToGo :: real
  Vertex_done :: bool

text \<open>Modelled from the spec: the root is the vertex that has no parent edge.\<close>

definition isRoot :: "Vertex \<Rightarrow> bool" where
  "isRoot v = (Vertex_parentEdge v = None)"

text \<open>Modelled from the spec: the total cost \<open>f = g + h\<close> of a vertex.\<close>

definition Vertex_f :: "Vertex \<Rightarrow> real" where
  "Vertex_f v = Vertex_currentCost v + Vertex_approxToGo v"

text \<open>Modelled from the spec: the parameters of \<^verbatim>\<open>PlannerConfig\<close> that the planner
  reads.\<close>

record PlannerConfig =
  timeHorizon :: real
  timeMinimum :: real
  maxSpeed :: real
  turningRadius :: real
  coverageTurningRadius :: real
  branchingFactor :: int
  collisionCheckingIncrement :: real

text \<open>The ribbon manager is an external collaborator: its state is the sequence of the
  mutating calls it has received.\<close>

datatype RibbonCall = Add real real real real | Cover real real

type_synonym RibbonManager = "RibbonCall list"

record SamplingBasedPlanner =
  m_VertexQueue :: "Vertex list"
  m_BestVertex :: "Vertex option"
  m_Samples :: "State list"
  m_StartStateTime :: real
  m_Config :: PlannerConfig
  m_ExpandedCount :: nat
  m_RibbonManager :: RibbonManager

datatype error = out_of_range | undefined_behaviour

section \<open>Open list and goal test\<close>

definition getVertexComparator :: "Vertex \<Rightarrow> Vertex \<Rightarrow> bool" where
  "getVertexComparator v1 v2 = (Vertex_getDepth v1 < Vertex_getDepth v2)"

definition goalCondition :: "SamplingBasedPlanner \<Rightarrow> Vertex \<Rightarrow> bool" where
  "goalCondition p vertex =
     (State_time (Vertex_state vertex) \<ge> m_StartStateTime p + timeHorizon (m_Config p) \<or>
      (Vertex_done vertex \<and>
       State_time (Vertex_state vertex) \<ge> m_StartStateTime p + timeMinimum (m_Config p)))"

text \<open>\<^verbatim>\<open>pushVertexQueue\<close>. The call \<^verbatim>\<open>vertex->approxToGo()\<close> only fills the cache of the
  heuristic, and \<^verbatim>\<open>visualizeVertex\<close> only writes to the visualization stream.\<close>

definition pushVertexQueue :: "SamplingBasedPlanner \<Rightarrow> Vertex \<Rightarrow> SamplingBasedPlanner" where
  "pushVertexQueue p vertex =
     (if \<not> isRoot vertex \<and> Edge_infeasible (the (Vertex_parentEdge vertex)) then p
      else if m_BestVertex p \<noteq> None \<and> Vertex_f (the (m_BestVertex p)) < Vertex_f vertex then p
      else if m_BestVertex p \<noteq> None \<and> Vertex_f (the (m_BestVertex p)) = Vertex_f vertex
              \<and> goalCondition p vertex then p
      else p\<lparr>m_VertexQueue := push_heap getVertexComparator (m_VertexQueue p @ [vertex])\<rparr>)"

definition popVertexQueue :: "SamplingBasedPlanner \<Rightarrow> error + Vertex \<times> SamplingBasedPlanner" where
  "popVertexQueue p =
     (if m_VertexQueue p = [] then Inl out_of_range
      else let q = pop_heap getVertexComparator (m_VertexQueue p) (length (m_VertexQueue p))
           in Inr (last q, p\<lparr>m_VertexQueue := butlast q\<rparr>))"

definition clearVertexQueue :: "SamplingBasedPlanner \<Rightarrow> SamplingBasedPlanner" where
  "clearVertexQueue p = p\<lparr>m_VertexQueue := []\<rparr>"

definition vertexQueueEmpty :: "SamplingBasedPlanner \<Rightarrow> bool" where
  "vertexQueueEmpty p = (m_VertexQueue p = [])"

section \<open>Expansion\<close>

text \<open>The collaborators of the planner that are defined outside its source file: the
  distance between states, the nearest point still to cover, the construction of a child
  vertex and the two cost computations on its parent edge (each returns the vertex as the
  call leaves it), the root vertex, the sample generator and the tracing of the plan.\<close>

record ('g, 'plan) Collaborators =
  distanceTo :: "State \<Rightarrow> State \<Rightarrow> real"
  getNearestPointAsState :: "Vertex \<Rightarrow> State"
  connect :: "Vertex \<Rightarrow> State \<Rightarrow> real \<Rightarrow> bool \<Rightarrow> Vertex"
  computeApproxCost :: "Vertex \<Rightarrow> Vertex"
  computeTrueCost :: "PlannerConfig \<Rightarrow> Vertex \<Rightarrow> Vertex"
  makeRoot :: "State \<Rightarrow> RibbonManager \<Rightarrow> Vertex"
  StateGenerator :: "real \<Rightarrow> real \<Rightarrow> real \<Rightarrow> real \<Rightarrow> real \<Rightarrow> real \<Rightarrow> int \<Rightarrow> RibbonManager \<Rightarrow> 'g"
  generate :: "'g \<Rightarrow> State \<times> 'g"
  tracePlan :: "Vertex \<Rightarrow> bool \<Rightarrow> PlannerConfig \<Rightarrow> 'plan"

text \<open>\<^verbatim>\<open>vertex->parentEdge()->approxCost()\<close>, read only on vertices made by
  \<^verbatim>\<open>Vertex::connect\<close>, which have a parent edge.\<close>

definition approxCost :: "Vertex \<Rightarrow> real" where
  "approxCost v = Edge_approxCost (the (Vertex_parentEdge v))"

definition getStateComparator :: "('g, 'plan) Collaborators \<Rightarrow> State \<Rightarrow> State \<Rightarrow> State \<Rightarrow> bool" where
  "getStateComparator env origin s1 s2 = (distanceTo env s1 origin > distanceTo env s2 origin)"

definition getDubinsComparator :: "Vertex \<Rightarrow> Vertex \<Rightarrow> bool" where
  "getDubinsComparator v1 v2 = (approxCost v1 < approxCost v2)"

text \<open>\<^verbatim>\<open>SamplingBasedPlanner::k()\<close>.\<close>

definition k_branching :: "SamplingBasedPlanner \<Rightarrow> int" where
  "k_branching p = branchingFactor (m_Config p)"

text \<open>In \<^verbatim>\<open>bestSamples.size() < k()\<close> and \<^verbatim>\<open>bestSamples.size() > k()\<close> the \<^verbatim>\<open>int\<close> that
  \<^verbatim>\<open>k()\<close> returns is converted to the unsigned 64-bit type of the size.\<close>

definition to_size_t :: "int \<Rightarrow> nat" where
  "to_size_t i = nat (i mod 2 ^ 64)"

text \<open>Lines 81 to 87 and 95 to 101 of \<^verbatim>\<open>expand\<close>: the candidate is connected with the
  turning radius and the mode of its policy, its approximate cost is computed, it is pushed
  on the heap of its policy, and the front of the heap is dropped when the heap has more
  than \<open>k\<close> entries. The second component is the dropped vertex, if any.\<close>

definition keep_candidate ::
  "('g, 'plan) Collaborators \<Rightarrow> int \<Rightarrow> Vertex \<Rightarrow> State \<Rightarrow> real \<Rightarrow> bool \<Rightarrow> Vertex list
     \<Rightarrow> Vertex list \<times> Vertex option" where
  "keep_candidate env kk sourceVertex sample radius coverage best =
     (let pushed = push_heap getDubinsComparator
            (best @ [computeApproxCost env (connect env sourceVertex sample radius coverage)])
      in if length pushed > to_size_t kk
         then let popped = pop_heap getDubinsComparator pushed (length pushed)
              in (butlast popped, Some (last popped))
         else (pushed, None))"

datatype decision = Finished | Skipped | Kept "Vertex list" "Vertex option"

text \<open>Lines 77 to 91 and 92 to 105: what one policy does with one sample while its scan is
  not finished. Reading the front of an empty vector is undefined behaviour.\<close>

definition consider_sample ::
  "('g, 'plan) Collaborators \<Rightarrow> SamplingBasedPlanner \<Rightarrow> Vertex \<Rightarrow> State \<Rightarrow> real \<Rightarrow> bool
     \<Rightarrow> Vertex list \<Rightarrow> error + decision" where
  "consider_sample env p sourceVertex sample radius coverage best =
     (if \<not> length best < to_size_t (k_branching p) \<and> best = [] then Inl undefined_behaviour
      else if length best < to_size_t (k_branching p) \<or>
              approxCost (hd best) > distanceTo env sample (Vertex_state sourceVertex)
      then (if distanceTo env (Vertex_state sourceVertex) sample
                 > collisionCheckingIncrement (m_Config p)
            then (case keep_candidate env (k_branching p) sourceVertex sample radius coverage best of
                    (best', dropped) \<Rightarrow> Inr (Kept best' dropped))
            else Inr Skipped)
      else Inr Finished)"

text \<open>The state of the loop over the samples. The last two fields are history variables:
  the vertices that \<^verbatim>\<open>pop_back\<close> has dropped from each heap so far, latest first.\<close>

record scan =
  samples :: "State list"
  bestSamples :: "Vertex list"
  bestCoverageSamples :: "Vertex list"
  regularDone :: bool
  coverageDone :: bool
  dropped :: "Vertex list"
  droppedCoverage :: "Vertex list"

definition scan_regular ::
  "('g, 'plan) Collaborators \<Rightarrow> SamplingBasedPlanner \<Rightarrow> Vertex \<Rightarrow> State \<Rightarrow> scan \<Rightarrow> error + scan" where
  "scan_regular env p sourceVertex sample sc =
     (if \<not> regularDone sc
      then (case consider_sample env p sourceVertex sample (turningRadius (m_Config p)) False
                   (bestSamples sc) of
              Inl e \<Rightarrow> Inl e
            | Inr Finished \<Rightarrow> Inr (sc\<lparr>regularDone := True\<rparr>)
            | Inr Skipped \<Rightarrow> Inr sc
            | Inr (Kept best' d) \<Rightarrow>
                Inr (sc\<lparr>bestSamples := best', dropped := (case d of None \<Rightarrow> [] | Some v \<Rightarrow> [v]) @ dropped sc\<rparr>))
      else Inr (sc\<lparr>regularDone := True\<rparr>))"

definition scan_coverage ::
  "('g, 'plan) Collaborators \<Rightarrow> SamplingBasedPlanner \<Rightarrow> Vertex \<Rightarrow> State \<Rightarrow> scan \<Rightarrow> error + scan" where
  "scan_coverage env p sourceVertex sample sc =
     (if \<not> coverageDone sc
      then (case consider_sample env p sourceVertex sample (coverageTurningRadius (m_Config p)) True
                   (bestCoverageSamples sc) of
              Inl e \<Rightarrow> Inl e
            | Inr Finished \<Rightarrow> Inr (sc\<lparr>coverageDone := True\<rparr>)
            | Inr Skipped \<Rightarrow> Inr sc
            | Inr (Kept best' d) \<Rightarrow>
                Inr (sc\<lparr>bestCoverageSamples := best',
                        droppedCoverage := (case d of None \<Rightarrow> [] | Some v \<Rightarrow> [v]) @ droppedCoverage sc\<rparr>))
      else Inr (sc\<lparr>coverageDone := True\<rparr>))"

text \<open>The body of the loop at index \<open>i\<close>: the nearest remaining sample is read at the front
  and moved behind the remaining ones, then offered to both policies.\<close>

definition scan_body ::
  "('g, 'plan) Collaborators \<Rightarrow> SamplingBasedPlanner \<Rightarrow> Vertex \<Rightarrow> nat \<Rightarrow> scan \<Rightarrow> error + scan" where
  "scan_body env p sourceVertex i sc =
     (let sample = hd (samples sc);
          sc1 = sc\<lparr>samples := pop_heap (getStateComparator env (Vertex_state sourceVertex))
                                  (samples sc) (length (samples sc) - i)\<rparr>
      in case scan_regular env p sourceVertex sample sc1 of
           Inl e \<Rightarrow> Inl e
         | Inr sc2 \<Rightarrow> scan_coverage env p sourceVertex sample sc2)"

lemma scan_regular_samples: "scan_regular env p sourceVertex sample sc = Inr sc' \<Longrightarrow> samples sc' = samples sc"
  by (auto simp: scan_regular_def split: if_splits sum.splits decision.splits)

lemma scan_coverage_samples: "scan_coverage env p sourceVertex sample sc = Inr sc' \<Longrightarrow> samples sc' = samples sc"
  by (auto simp: scan_coverage_def split: if_splits sum.splits decision.splits)

lemma scan_body_length:
  "scan_body env p sourceVertex i sc = Inr sc' \<Longrightarrow> length (samples sc') = length (samples sc)"
  by (auto simp: scan_body_def Let_def split: sum.splits
      dest!: scan_regular_samples scan_coverage_samples)

function scan_loop ::
  "('g, 'plan) Collaborators \<Rightarrow> SamplingBasedPlanner \<Rightarrow> Vertex \<Rightarrow> nat \<Rightarrow> scan \<Rightarrow> error + scan" where
  "scan_loop env p sourceVertex i sc =
     (if i < length (samples sc) \<and> (\<not> regularDone sc \<or> \<not> coverageDone sc)
      then (case scan_body env p sourceVertex i sc of
              Inl e \<Rightarrow> Inl e
            | Inr sc' \<Rightarrow> scan_loop env p sourceVertex (i + 1) sc')
      else Inr sc)"
  by pat_completeness auto
termination
proof (relation "measure (\<lambda>(env, p, sourceVertex, i, sc). length (samples sc) - i)")
  show "wf (measure (\<lambda>(env :: ('g, 'plan) Collaborators, p :: SamplingBasedPlanner,
      sourceVertex :: Vertex, i, sc). length (samples sc) - i))" by simp
next
  fix env :: "('g, 'plan) Collaborators" and p sourceVertex i sc sc'
  assume "i < length (samples sc) \<and> (\<not> regularDone sc \<or> \<not> coverageDone sc)"
    and "scan_body env p sourceVertex i sc = Inr sc'"
  then show "((env, p, sourceVertex, i + 1, sc'), (env, p, sourceVertex, i, sc))
      \<in> measure (\<lambda>(env, p, sourceVertex, i, sc). length (samples sc) - i)"
    using scan_body_length [of env p sourceVertex i sc sc'] by auto
qed

declare scan_loop.simps [simp del]

text \<open>The two loops that push the retained candidates: the front of the heap is read, moved
  behind the remaining entries, given its true cost and pushed on the open list.\<close>

function push_best ::
  "('g, 'plan) Collaborators \<Rightarrow> SamplingBasedPlanner \<Rightarrow> Vertex list \<Rightarrow> nat \<Rightarrow> SamplingBasedPlanner" where
  "push_best env p best i =
     (if int i < k_branching p \<and> \<not> i \<ge> length best
      then push_best env
             (pushVertexQueue p (computeTrueCost env (m_Config p) (hd best)))
             (pop_heap getDubinsComparator best (length best - i)) (i + 1)
      else p)"
  by pat_completeness auto
termination
  by (relation "measure (\<lambda>(env, p, best, i). length best - i)") auto

declare push_best.simps [simp del]

text \<open>Lines 51 to 64: the two vertices towards the nearest point still to cover.\<close>

definition expand_nearest ::
  "('g, 'plan) Collaborators \<Rightarrow> SamplingBasedPlanner \<Rightarrow> Vertex \<Rightarrow> SamplingBasedPlanner" where
  "expand_nearest env p sourceVertex =
     (if \<not> Vertex_done sourceVertex
      then let s = getNearestPointAsState env sourceVertex
           in if distanceTo env (Vertex_state sourceVertex) s > collisionCheckingIncrement (m_Config p)
              then let s = s\<lparr>State_speed := maxSpeed (m_Config p)\<rparr>;
                       p = pushVertexQueue p (computeTrueCost env (m_Config p)
                             (connect env sourceVertex s (turningRadius (m_Config p)) False))
                   in pushVertexQueue p (computeTrueCost env (m_Config p)
                        (connect env sourceVertex s (coverageTurningRadius (m_Config p)) True))
              else p
      else p)"

text \<open>Lines 65 to 106: the pool is made a heap by distance from the source, nearest
  first, and scanned once for both policies; a non-positive coverage turning radius marks
  the coverage scan as finished from the start.\<close>

definition select_candidates ::
  "('g, 'plan) Collaborators \<Rightarrow> SamplingBasedPlanner \<Rightarrow> Vertex \<Rightarrow> error + scan" where
  "select_candidates env p sourceVertex =
     scan_loop env p sourceVertex 0
       \<lparr>samples = make_heap (getStateComparator env (Vertex_state sourceVertex)) (m_Samples p),
        bestSamples = [], bestCoverageSamples = [],
        regularDone = False,
        coverageDone = (coverageTurningRadius (m_Config p) \<le> 0),
        dropped = [], droppedCoverage = []\<rparr>"

text \<open>\<^verbatim>\<open>expand\<close>. The obstacles manager passed in is not read, and \<^verbatim>\<open>visualizeVertex\<close>
  only writes to the visualization stream.\<close>

definition expand ::
  "('g, 'plan) Collaborators \<Rightarrow> SamplingBasedPlanner \<Rightarrow> Vertex \<Rightarrow> error + SamplingBasedPlanner" where
  "expand env p sourceVertex =
     (let p = expand_nearest env p sourceVertex
      in case select_candidates env p sourceVertex of
           Inl e \<Rightarrow> Inl e
         | Inr sc \<Rightarrow>
             (let p = p\<lparr>m_Samples := samples sc\<rparr>;
                  p = push_best env p (bestSamples sc) 0;
                  p = push_best env p (bestCoverageSamples sc) 0
              in Inr (p\<lparr>m_ExpandedCount := m_ExpandedCount p + 1\<rparr>)))"

section \<open>The planning loop\<close>

text \<open>\<^verbatim>\<open>addSamples(generator, n)\<close>: \<open>n\<close> states are drawn from the generator and appended to
  the pool.\<close>

fun addSamples_loop ::
  "('g, 'plan) Collaborators \<Rightarrow> 'g \<Rightarrow> nat \<Rightarrow> SamplingBasedPlanner \<Rightarrow> SamplingBasedPlanner \<times> 'g" where
  "addSamples_loop env generator 0 p = (p, generator)"
| "addSamples_loop env generator (Suc n) p =
     (case generate env generator of
        (s, generator') \<Rightarrow> addSamples_loop env generator' n (p\<lparr>m_Samples := m_Samples p @ [s]\<rparr>))"

definition addSamples ::
  "('g, 'plan) Collaborators \<Rightarrow> 'g \<Rightarrow> int \<Rightarrow> SamplingBasedPlanner \<Rightarrow> SamplingBasedPlanner \<times> 'g" where
  "addSamples env generator n p = addSamples_loop env generator (nat n) p"

text \<open>The loop of \<^verbatim>\<open>plan\<close>: while the current vertex does not satisfy the goal condition
  it is expanded and the next one is popped. The loop need not end: \<open>None\<close> is the run that
  never returns. An exception ends the call.\<close>

partial_function (option) plan_loop ::
  "('g, 'plan) Collaborators \<Rightarrow> SamplingBasedPlanner \<Rightarrow> Vertex
     \<Rightarrow> (error + Vertex \<times> SamplingBasedPlanner) option" where
  "plan_loop env p vertex =
     (if \<not> goalCondition p vertex
      then (case expand env p vertex of
              Inl e \<Rightarrow> Some (Inl e)
            | Inr p1 \<Rightarrow>
                (case popVertexQueue p1 of
                   Inl e \<Rightarrow> Some (Inl e)
                 | Inr r \<Rightarrow> plan_loop env (snd r) (fst r)))
      else Some (Inr (vertex, p)))"

declare plan_loop.simps [code]

text \<open>\<^verbatim>\<open>plan\<close>. The ribbon manager passed in has no name in the source and is not read (the
  member \<^verbatim>\<open>m_RibbonManager\<close> is); the previous plan and the time remaining are not read
  either.\<close>

definition plan ::
  "('g, 'plan) Collaborators \<Rightarrow> SamplingBasedPlanner \<Rightarrow> RibbonManager \<Rightarrow> State \<Rightarrow> PlannerConfig
     \<Rightarrow> 'plan \<Rightarrow> real \<Rightarrow> (error + 'plan \<times> SamplingBasedPlanner) option" where
  "plan env p ribbonManager start config previousPlan timeRemaining =
     (let p = p\<lparr>m_Config := config\<rparr>;
          p = p\<lparr>m_StartStateTime := State_time start\<rparr>;
          p = p\<lparr>m_Samples := []\<rparr>;
          p = p\<lparr>m_VertexQueue := []\<rparr>;
          minSpeed = maxSpeed (m_Config p);
          maxSpeed' = maxSpeed (m_Config p);
          magnitude = maxSpeed (m_Config p) * timeHorizon (m_Config p);
          minX = State_x start - magnitude;
          maxX = State_x start + magnitude;
          minY = State_y start - magnitude;
          maxY = State_y start + magnitude;
          generator = StateGenerator env minX maxX minY maxY minSpeed maxSpeed' 7 (m_RibbonManager p)
      in case addSamples env generator 1000 p of
           (p, generator) \<Rightarrow>
             (case plan_loop env p (makeRoot env start (m_RibbonManager p)) of
                None \<Rightarrow> None
              | Some (Inl e) \<Rightarrow> Some (Inl e)
              | Some (Inr (vertex, p)) \<Rightarrow> Some (Inr (tracePlan env vertex False (m_Config p), p))))"

section \<open>Sequences of pushes and pops\<close>

text \<open>The open list under a sequence of calls of \<^verbatim>\<open>pushVertexQueue\<close> and \<^verbatim>\<open>popVertexQueue\<close>;
  a pop that throws leaves the list as it is.\<close>

datatype queue_op = Push Vertex | Pop

fun queue_ops :: "SamplingBasedPlanner \<Rightarrow> queue_op list \<Rightarrow> SamplingBasedPlanner" where
  "queue_ops p [] = p"
| "queue_ops p (Push v # ops) = queue_ops (pushVertexQueue p v) ops"
| "queue_ops p (Pop # ops) =
     (case popVertexQueue p of Inl e \<Rightarrow> queue_ops p ops | Inr (v, p') \<Rightarrow> queue_ops p' ops)"

text \<open>A vertex that has a parent edge, marked infeasible.\<close>

definition parentEdgeInfeasible :: "Vertex \<Rightarrow> bool" where
  "parentEdgeInfeasible v =
     (case Vertex_parentEdge v of None \<Rightarrow> False | Some e \<Rightarrow> Edge_infeasible e)"

text \<open>Two planner states with the same incumbent, configuration and start time: pushes and
  pops change none of the three.\<close>

definition same_search :: "SamplingBasedPlanner \<Rightarrow> SamplingBasedPlanner \<Rightarrow> bool" where
  "same_search p q = (m_BestVertex q = m_BestVertex p \<and> m_Config q = m_Config p
     \<and> m_StartStateTime q = m_StartStateTime p)"

section \<open>Examples for the open list\<close>

definition example_config :: PlannerConfig where
  "example_config = \<lparr>timeHorizon = 30, timeMinimum = 5, maxSpeed = 2, turningRadius = 8,
     coverageTurningRadius = 0, branchingFactor = 2, collisionCheckingIncrement = 1\<rparr>"

definition example_edge :: "bool \<Rightarrow> bool \<Rightarrow> Edge" where
  "example_edge infeasible coverage = \<lparr>Edge_infeasible = infeasible, Edge_approxCost = 1,
     Edge_trueCost = 1, Edge_coverage = coverage, Edge_turningRadius = 8\<rparr>"

text \<open>\<open>example_vertex d g t\<close>: a vertex of depth \<open>d\<close>, cost \<open>g\<close> and time \<open>t\<close> at the end of a
  feasible edge, with coverage not complete.\<close>

definition example_vertex :: "int \<Rightarrow> real \<Rightarrow> real \<Rightarrow> Vertex" where
  "example_vertex d g t = \<lparr>Vertex_state = \<lparr>State_x = 0, State_y = 0, State_heading = 0,
       State_speed = 2, State_time = t\<rparr>,
     Vertex_parentEdge = Some (example_edge False False), Vertex_getDepth = d,
     Vertex_currentCost = g, Vertex_approxToGo = 0, Vertex_done = False\<rparr>"

text \<open>\<open>example_planner best\<close>: a planner with an empty open list, no samples and start time
  \<open>0\<close>.\<close>

definition example_planner :: "Vertex option \<Rightarrow> SamplingBasedPlanner" where
  "example_planner best = \<lparr>m_VertexQueue = [], m_BestVertex = best, m_Samples = [],
     m_StartStateTime = 0, m_Config = example_config, m_ExpandedCount = 0,
     m_RibbonManager = []\<rparr>"

lemmas example_defs = example_config_def example_edge_def example_vertex_def example_planner_def

definition infeasible_vertex :: Vertex where
  "infeasible_vertex = (example_vertex 1 1 1)\<lparr>Vertex_parentEdge := Some (example_edge True False)\<rparr>"

definition example_ops :: "queue_op list" where
  "example_ops = [Push (example_vertex 1 9 4), Push infeasible_vertex, Push (example_vertex 2 3 8),
     Push (example_vertex 1 1 2)]"


section \<open>Invariants of the bounded selection\<close>

text \<open>What holds of one selection throughout the scan, for the bound \<open>K\<close>: the vector is a
  heap by approximate cost with at most \<open>K\<close> entries, nothing has been dropped before it
  was full, and no entry costs more than a dropped vertex.\<close>

definition selection_inv :: "nat \<Rightarrow> Vertex list \<Rightarrow> Vertex list \<Rightarrow> bool" where
  "selection_inv K best drp =
     (is_heap getDubinsComparator best (length best) \<and> length best \<le> K \<and>
      (drp \<noteq> [] \<longrightarrow> length best = K) \<and>
      (\<forall>r \<in> set best. \<forall>e \<in> set drp. approxCost r \<le> approxCost e))"

definition scan_inv :: "nat \<Rightarrow> scan \<Rightarrow> bool" where
  "scan_inv K sc = (selection_inv K (bestSamples sc) (dropped sc) \<and>
     selection_inv K (bestCoverageSamples sc) (droppedCoverage sc))"

section \<open>An environment for examples\<close>

text \<open>An environment for worked examples: distances are \<open>|dx| + |dy|\<close>, the nearest point to
  cover is \<open>(10, 0)\<close>, the approximate cost of an edge is twice the distance of its end from
  the origin, and every edge takes one unit of cost and of time.\<close>

definition example_point :: "real \<Rightarrow> real \<Rightarrow> State" where
  "example_point x y = \<lparr>State_x = x, State_y = y, State_heading = 0, State_speed = 0, State_time = 0\<rparr>"

definition example_distance :: "State \<Rightarrow> State \<Rightarrow> real" where
  "example_distance s1 s2 = \<bar>State_x s1 - State_x s2\<bar> + \<bar>State_y s1 - State_y s2\<bar>"

definition example_connect :: "Vertex \<Rightarrow> State \<Rightarrow> real \<Rightarrow> bool \<Rightarrow> Vertex" where
  "example_connect source s radius coverage =
     \<lparr>Vertex_state = s\<lparr>State_time := State_time (Vertex_state source)\<rparr>,
      Vertex_parentEdge = Some \<lparr>Edge_infeasible = False, Edge_approxCost = 0, Edge_trueCost = 0,
        Edge_coverage = coverage, Edge_turningRadius = radius\<rparr>,
      Vertex_getDepth = Vertex_getDepth source + 1,
      Vertex_currentCost = Vertex_currentCost source, Vertex_approxToGo = 0,
      Vertex_done = Vertex_done source\<rparr>"

definition example_approx :: "Vertex \<Rightarrow> Vertex" where
  "example_approx v = v\<lparr>Vertex_parentEdge := map_option
     (\<lambda>e. e\<lparr>Edge_approxCost := 2 * (\<bar>State_x (Vertex_state v)\<bar> + \<bar>State_y (Vertex_state v)\<bar>)\<rparr>)
     (Vertex_parentEdge v)\<rparr>"

definition example_true :: "PlannerConfig \<Rightarrow> Vertex \<Rightarrow> Vertex" where
  "example_true config v = v\<lparr>Vertex_parentEdge := map_option (\<lambda>e. e\<lparr>Edge_trueCost := 1\<rparr>) (Vertex_parentEdge v),
     Vertex_currentCost := Vertex_currentCost v + 1,
     Vertex_state := (Vertex_state v)\<lparr>State_time := State_time (Vertex_state v) + 1\<rparr>\<rparr>"

definition example_root :: "State \<Rightarrow> RibbonManager \<Rightarrow> Vertex" where
  "example_root s ribbons = \<lparr>Vertex_state = s, Vertex_parentEdge = None, Vertex_getDepth = 0,
     Vertex_currentCost = 0, Vertex_approxToGo = 0, Vertex_done = False\<rparr>"

definition example_env :: "(nat, Vertex) Collaborators" where
  "example_env = \<lparr>distanceTo = example_distance,
     getNearestPointAsState = (\<lambda>v. example_point 10 0),
     connect = example_connect,
     computeApproxCost = example_approx,
     computeTrueCost = example_true,
     makeRoot = example_root,
     StateGenerator = (\<lambda>minX maxX minY maxY minSpeed maxSpeed seed ribbons. 0),
     generate = (\<lambda>g. (example_point (real g + 2) 0, g + 1)),
     tracePlan = (\<lambda>v smoothing config. v)\<rparr>"

definition example_pool :: "State list" where
  "example_pool = [example_point 5 0, example_point 3 0, example_point 0 4, example_point 2 0]"

definition example_source :: Vertex where
  "example_source = example_root (example_point 0 0) []"

definition pool_planner :: "int \<Rightarrow> SamplingBasedPlanner" where
  "pool_planner K = (example_planner None)\<lparr>m_Samples := example_pool,
     m_Config := example_config\<lparr>branchingFactor := K\<rparr>\<rparr>"

definition short_planner :: SamplingBasedPlanner where
  "short_planner = (example_planner None)\<lparr>m_Samples := example_pool,
     m_Config := example_config\<lparr>timeHorizon := 2\<rparr>\<rparr>"

text \<open>What the examples observe: how many candidates the direct selection has retained when
  the scan ends, and for each queued vertex the \<open>x\<close> of its state with the coverage mode and
  the turning radius of its parent edge.\<close>

definition retained :: "error + scan \<Rightarrow> error + int" where
  "retained r = map_sum id (\<lambda>sc. int (length (bestSamples sc))) r"

definition queued_edges :: "error + SamplingBasedPlanner \<Rightarrow> error + (real \<times> (bool \<times> real) option) set" where
  "queued_edges r = map_sum id (\<lambda>p. set (map (\<lambda>v. (State_x (Vertex_state v),
       map_option (\<lambda>e. (Edge_coverage e, Edge_turningRadius e)) (Vertex_parentEdge v)))
     (m_VertexQueue p))) r"

lemmas example_env_defs = example_env_def example_point_def example_distance_def
  example_connect_def example_approx_def example_true_def example_root_def example_pool_def
  example_source_def pool_planner_def

lemmas expand_defs = select_candidates_def scan_loop.simps scan_body_def scan_regular_def
  scan_coverage_def consider_sample_def keep_candidate_def to_size_t_def k_branching_def
  getStateComparator_def getDubinsComparator_def approxCost_def make_heap_def pop_heap_def
  push_heap_def sift_up.simps sift_down.simps largest_def parent_def swap_def

definition candidate :: "real \<Rightarrow> Vertex" where
  "candidate x = example_approx (example_connect example_source (example_point x 0) 8 False)"

section \<open>Heaps: permutation\<close>

lemma mset_swap [simp]: "i < length xs \<Longrightarrow> j < length xs \<Longrightarrow> mset (swap xs i j) = mset xs"
  by (simp add: swap_def mset_swap)

lemma parent_less: "0 < i \<Longrightarrow> parent i < i"
  by (simp add: parent_def)

lemma nth_swap: "i < length xs \<Longrightarrow> j < length xs \<Longrightarrow> k < length xs \<Longrightarrow>
  swap xs i j ! k = (if k = i then xs ! j else if k = j then xs ! i else xs ! k)"
  by (auto simp: swap_def nth_list_update)

lemma mset_sift_up [simp]: "mset (sift_up cmp xs i) = mset xs"
proof (induction cmp xs i rule: sift_up.induct)
  case (1 cmp xs i)
  show ?case
  proof (cases "0 < i \<and> i < length xs \<and> cmp (xs ! parent i) (xs ! i)")
    case True
    then have "parent i < length xs" using parent_less [of i] by simp
    with True 1 show ?thesis by (simp add: sift_up.simps [of cmp xs i])
  next
    case False
    then show ?thesis by (auto simp: sift_up.simps [of cmp xs i])
  qed
qed

lemma mset_sift_down [simp]: "n \<le> length xs \<Longrightarrow> mset (sift_down cmp xs n i) = mset xs"
proof (induction cmp xs n i rule: sift_down.induct)
  case (1 cmp xs n i)
  show ?case
  proof (cases "largest cmp xs n i \<noteq> i")
    case True
    then have "i < largest cmp xs n i \<and> largest cmp xs n i < n" by (rule largest_range)
    with True 1 show ?thesis by (simp add: sift_down.simps [of cmp xs n i])
  next
    case False
    then show ?thesis by (simp add: sift_down.simps [of cmp xs n i])
  qed
qed

lemma nth_sift_down_outside: "n \<le> length xs \<Longrightarrow> n \<le> k \<Longrightarrow> k < length xs \<Longrightarrow> sift_down cmp xs n i ! k = xs ! k"
proof (induction cmp xs n i rule: sift_down.induct)
  case (1 cmp xs n i)
  show ?case
  proof (cases "largest cmp xs n i \<noteq> i")
    case True
    then have "i < largest cmp xs n i \<and> largest cmp xs n i < n" by (rule largest_range)
    with True 1 show ?thesis by (simp add: sift_down.simps [of cmp xs n i] nth_swap)
  next
    case False
    then show ?thesis by (simp add: sift_down.simps [of cmp xs n i])
  qed
qed

lemma mset_fold_sift_down:
  "n \<le> length xs \<Longrightarrow> mset (fold (\<lambda>i ys. sift_down cmp ys n i) is xs) = mset xs"
  by (induction "is" arbitrary: xs) simp_all

lemma mset_make_heap [simp]: "mset (make_heap cmp xs) = mset xs"
  by (simp add: make_heap_def mset_fold_sift_down)

section \<open>Heaps: the heap property\<close>

lemma up_step:
  assumes inv: "up_inv key xs n i" and i: "0 < i" "i < n" and n: "n \<le> length xs"
    and lt: "key (xs ! parent i) < key (xs ! i)"
  shows "up_inv key (swap xs (parent i) i) n (parent i)"
proof -
  let ?p = "parent i" and ?ys = "swap xs (parent i) i"
  have p: "?p < i" using i by (simp add: parent_less)
  have nth: "\<And>k. k < n \<Longrightarrow> ?ys ! k = (if k = ?p then xs ! i else if k = i then xs ! ?p else xs ! k)"
    using p i n by (simp add: nth_swap)
  have A: "\<And>j. 0 < j \<Longrightarrow> j < n \<Longrightarrow> j \<noteq> i \<Longrightarrow> key (xs ! j) \<le> key (xs ! parent j)"
    using inv by (simp add: up_inv_def)
  have B: "\<And>j. 0 < j \<Longrightarrow> j < n \<Longrightarrow> parent j = i \<Longrightarrow> key (xs ! j) \<le> key (xs ! ?p)"
    using inv i by (simp add: up_inv_def)
  have pj: "parent j < n \<and> parent j < j" if "0 < j" "j < n" for j
    using that parent_less [of j] by simp
  have first: "key (?ys ! j) \<le> key (?ys ! parent j)" if j: "0 < j" "j < n" "j \<noteq> ?p" for j
  proof -
    have pjn: "parent j < n" "parent j < j" using pj j by auto
    consider "j = i" | "j \<noteq> i" "parent j = i" | "j \<noteq> i" "parent j = ?p" | "j \<noteq> i" "parent j \<noteq> i" "parent j \<noteq> ?p"
      by blast
    then show ?thesis
    proof cases
      case 1
      then show ?thesis using nth [of i] nth [of ?p] i p lt by simp
    next
      case 2
      then show ?thesis using nth [of j] nth [of i] j i p B [of j] pjn by auto
    next
      case 3
      then show ?thesis using nth [of j] nth [of ?p] j i p A [of j] lt pjn by auto
    next
      case 4
      then show ?thesis using nth [of j] nth [of "parent j"] j A [of j] pjn by auto
    qed
  qed
  have second: "key (?ys ! j) \<le> key (?ys ! parent ?p)" if j: "0 < j" "j < n" "parent j = ?p" "0 < ?p" for j
  proof -
    have pp: "parent ?p < ?p" using j by (simp add: parent_less)
    have ppn: "?ys ! parent ?p = xs ! parent ?p" using nth [of "parent ?p"] pp p i by simp
    have top: "key (xs ! ?p) \<le> key (xs ! parent ?p)" using A [of ?p] j p i by simp
    show ?thesis
    proof (cases "j = i")
      case True
      then show ?thesis using nth [of i] i p ppn top by simp
    next
      case False
      have "j \<noteq> ?p" using j pj [of j] by auto
      then have "?ys ! j = xs ! j" using nth [of j] j False by simp
      moreover have "key (xs ! j) \<le> key (xs ! ?p)" using A [of j] j False by simp
      ultimately show ?thesis using ppn top by simp
    qed
  qed
  show ?thesis unfolding up_inv_def using first second by blast
qed

lemma is_heap_by_key: "is_heap (by_key key) xs n = (\<forall>j. 0 < j \<and> j < n \<longrightarrow> key (xs ! j) \<le> key (xs ! parent j))"
  by (simp add: is_heap_def by_key_def not_less)

lemma up_stop:
  assumes "up_inv key xs n i" and "\<not> (0 < i \<and> i < n \<and> key (xs ! parent i) < key (xs ! i))"
  shows "is_heap (by_key key) xs n"
  unfolding is_heap_by_key
proof (intro allI impI)
  fix j assume j: "0 < j \<and> j < n"
  show "key (xs ! j) \<le> key (xs ! parent j)"
  proof (cases "j = i")
    case True
    with assms(2) j show ?thesis by (simp add: not_less)
  next
    case False
    with assms(1) j show ?thesis by (simp add: up_inv_def)
  qed
qed

lemma sift_up_heap:
  "up_inv key xs n i \<Longrightarrow> n = length xs \<Longrightarrow> is_heap (by_key key) (sift_up (by_key key) xs i) n"
proof (induction "by_key key" xs i rule: sift_up.induct)
  case (1 xs i)
  show ?case
  proof (cases "0 < i \<and> i < length xs \<and> by_key key (xs ! parent i) (xs ! i)")
    case True
    then have "up_inv key (swap xs (parent i) i) n (parent i)"
      using up_step [of key xs n i] 1(2,3) by (simp add: by_key_def)
    then have "is_heap (by_key key) (sift_up (by_key key) (swap xs (parent i) i) (parent i)) n"
      using 1(1) True 1(3) by simp
    then show ?thesis using True by (simp add: sift_up.simps [of "by_key key" xs i])
  next
    case False
    then have "is_heap (by_key key) xs n"
      using up_stop [of key xs n i] 1(2,3) by (auto simp: by_key_def)
    then show ?thesis using False by (auto simp: sift_up.simps [of "by_key key" xs i])
  qed
qed

lemma push_back_up_inv:
  assumes "is_heap (by_key key) xs (length xs)"
  shows "up_inv key (xs @ [v]) (Suc (length xs)) (length xs)"
  unfolding up_inv_def
proof (intro conjI allI impI)
  fix j assume j: "0 < j \<and> j < Suc (length xs) \<and> j \<noteq> length xs"
  then have "j < length xs" by simp
  moreover have "parent j < length xs" using j parent_less [of j] by simp
  ultimately show "key ((xs @ [v]) ! j) \<le> key ((xs @ [v]) ! parent j)"
    using assms j by (simp add: is_heap_by_key nth_append)
next
  fix j assume j: "0 < j \<and> j < Suc (length xs) \<and> parent j = length xs \<and> 0 < length xs"
  then have False using parent_less [of j] by simp
  then show "key ((xs @ [v]) ! j) \<le> key ((xs @ [v]) ! parent (length xs))" ..
qed

lemma push_heap_heap:
  "is_heap (by_key key) xs (length xs) \<Longrightarrow>
   is_heap (by_key key) (push_heap (by_key key) (xs @ [v])) (Suc (length xs))"
  using sift_up_heap [OF push_back_up_inv, of key xs v] by (simp add: push_heap_def)

lemma mset_push_heap [simp]: "mset (push_heap cmp xs) = mset xs"
  by (simp add: push_heap_def)

lemma heap_front_max:
  "is_heap (by_key key) xs n \<Longrightarrow> j < n \<Longrightarrow> key (xs ! j) \<le> key (xs ! 0)"
proof (induction j rule: less_induct)
  case (less j)
  show ?case
  proof (cases "j = 0")
    case True
    then show ?thesis by simp
  next
    case False
    then have p: "parent j < j" by (simp add: parent_less)
    have "key (xs ! j) \<le> key (xs ! parent j)"
      using less.prems False by (simp add: is_heap_by_key)
    also have "\<dots> \<le> key (xs ! 0)"
      using less.IH [OF p less.prems(1)] p less.prems(2) by simp
    finally show ?thesis .
  qed
qed

lemma children: "0 < j \<Longrightarrow> parent j = i \<longleftrightarrow> (j = 2 * i + 1 \<or> j = 2 * i + 2)"
  by (auto simp: parent_def)

lemma largest_key:
  assumes "m = largest (by_key key) xs n i"
  shows "key (xs ! i) \<le> key (xs ! m)"
    and "2 * i + 1 < n \<Longrightarrow> key (xs ! (2 * i + 1)) \<le> key (xs ! m)"
    and "2 * i + 2 < n \<Longrightarrow> key (xs ! (2 * i + 2)) \<le> key (xs ! m)"
    and "m = i \<or> m = 2 * i + 1 \<or> m = 2 * i + 2"
    and "m \<noteq> i \<Longrightarrow> key (xs ! i) < key (xs ! m)"
  using assms by (auto simp: largest_def by_key_def Let_def not_less split: if_splits)

lemma down_step:
  assumes inv: "down_inv key xs n i" and n: "n \<le> length xs"
    and m: "m = largest (by_key key) xs n i" and ne: "m \<noteq> i"
  shows "down_inv key (swap xs i m) n m"
proof -
  let ?ys = "swap xs i m"
  have rng: "i < m" "m < n" using largest_range [of "by_key key" xs n i] m ne by simp_all
  have mc: "m = 2 * i + 1 \<or> m = 2 * i + 2" using largest_key(4) [OF m] ne by simp
  have pm: "parent m = i" using mc by (auto simp: parent_def)
  have nth: "?ys ! k = (if k = i then xs ! m else if k = m then xs ! i else xs ! k)" if "k < n" for k
    using that rng n by (simp add: nth_swap)
  have A: "key (xs ! j) \<le> key (xs ! parent j)" if "0 < j" "j < n" "parent j \<noteq> i" for j
    using inv that by (simp add: down_inv_def)
  have B: "key (xs ! j) \<le> key (xs ! parent i)" if "0 < j" "j < n" "parent j = i" "0 < i" for j
    using inv that by (simp add: down_inv_def)
  have pj: "parent j < n \<and> parent j < j" if "0 < j" "j < n" for j
    using that parent_less [of j] by simp
  have first: "key (?ys ! j) \<le> key (?ys ! parent j)" if j: "0 < j" "j < n" "parent j \<noteq> m" for j
  proof -
    have pjn: "parent j < n" "parent j < j" using pj j by auto
    consider "parent j = i" | "parent j \<noteq> i" "j = i" | "parent j \<noteq> i" "j \<noteq> i"
      by blast
    then show ?thesis
    proof cases
      case 1
      then have jc: "j = 2 * i + 1 \<or> j = 2 * i + 2" using children [of j i] j by simp
      have top: "?ys ! parent j = xs ! m" using 1 nth [of i] rng by simp
      have "key (xs ! j) \<le> key (xs ! m)"
        using jc j largest_key(2,3) [OF m] by auto
      moreover have "key (xs ! i) \<le> key (xs ! m)" using largest_key(1) [OF m] .
      moreover have "j \<noteq> i" using 1 pjn by simp
      ultimately show ?thesis using nth [of j] j top by simp
    next
      case 2
      then have "0 < i" using j by simp
      then have "key (xs ! m) \<le> key (xs ! parent i)" using B [of m] rng pm by simp
      moreover have "parent i \<noteq> i" "parent i \<noteq> m" using pjn 2 rng by simp_all
      ultimately show ?thesis using nth [of i] nth [of "parent i"] 2 pjn rng by simp
    next
      case 3
      have "j \<noteq> m" using 3 pm by auto
      then have "?ys ! j = xs ! j" using nth [of j] j 3 by simp
      moreover have "?ys ! parent j = xs ! parent j" using nth [of "parent j"] pjn 3 j by simp
      ultimately show ?thesis using A [of j] j 3 by simp
    qed
  qed
  have second: "key (?ys ! j) \<le> key (?ys ! parent m)" if j: "0 < j" "j < n" "parent j = m" for j
  proof -
    have "m < j" using pj [of j] j by simp
    then have "?ys ! j = xs ! j" using nth [of j] j rng by simp
    moreover have "?ys ! parent m = xs ! m" using nth [of i] pm rng by simp
    moreover have "key (xs ! j) \<le> key (xs ! m)" using A [of j] j ne by simp
    ultimately show ?thesis by simp
  qed
  show ?thesis unfolding down_inv_def using first second by blast
qed

lemma down_stop:
  assumes inv: "down_inv key xs n i" and m: "largest (by_key key) xs n i = i"
  shows "is_heap (by_key key) xs n"
  unfolding is_heap_by_key
proof (intro allI impI)
  fix j assume j: "0 < j \<and> j < n"
  show "key (xs ! j) \<le> key (xs ! parent j)"
  proof (cases "parent j = i")
    case True
    then have "j = 2 * i + 1 \<or> j = 2 * i + 2" using children [of j i] j by simp
    then have "key (xs ! j) \<le> key (xs ! i)"
      using largest_key(2,3) [OF m [symmetric]] j by auto
    then show ?thesis using True by simp
  next
    case False
    then show ?thesis using inv j by (simp add: down_inv_def)
  qed
qed

lemma sift_down_heap:
  "down_inv key xs n i \<Longrightarrow> n \<le> length xs \<Longrightarrow>
   is_heap (by_key key) (sift_down (by_key key) xs n i) n"
proof (induction "by_key key" xs n i rule: sift_down.induct)
  case (1 xs n i)
  show ?case
  proof (cases "largest (by_key key) xs n i \<noteq> i")
    case True
    then have "down_inv key (swap xs i (largest (by_key key) xs n i)) n (largest (by_key key) xs n i)"
      using down_step [of key xs n i] 1(2,3) by simp
    then have "is_heap (by_key key)
        (sift_down (by_key key) (swap xs i (largest (by_key key) xs n i)) n (largest (by_key key) xs n i)) n"
      using 1(1) True 1(3) by simp
    then show ?thesis using True by (simp add: sift_down.simps [of "by_key key" xs n i])
  next
    case False
    then have "is_heap (by_key key) xs n" using down_stop [of key xs n i] 1(2) by simp
    then show ?thesis using False by (simp add: sift_down.simps [of "by_key key" xs n i])
  qed
qed

lemma pop_heap_unfold:
  "1 < n \<Longrightarrow> n \<le> length xs \<Longrightarrow>
   pop_heap cmp xs n = sift_down cmp (swap xs 0 (n - 1)) (n - 1) 0
   \<and> 0 < length xs \<and> n - 1 < length xs \<and> n - 1 \<le> length (swap xs 0 (n - 1))"
  by (cases xs) (auto simp: pop_heap_def)

lemma mset_pop_heap [simp]: "n \<le> length xs \<Longrightarrow> mset (pop_heap cmp xs n) = mset xs"
proof (cases "1 < n")
  case True
  assume "n \<le> length xs"
  from pop_heap_unfold [OF True this, of cmp] show ?thesis by simp
next
  case False
  then show ?thesis by (simp add: pop_heap_def)
qed

lemma nth_pop_heap_back:
  assumes "0 < n" and "n \<le> length xs"
  shows "pop_heap cmp xs n ! (n - 1) = xs ! 0"
proof (cases "1 < n")
  case True
  from pop_heap_unfold [OF True assms(2), of cmp] show ?thesis
    by (simp add: nth_sift_down_outside nth_swap)
next
  case False
  then show ?thesis using assms by (simp add: pop_heap_def)
qed

lemma nth_pop_heap_outside:
  assumes "n \<le> length xs" and "n \<le> k" and "k < length xs"
  shows "pop_heap cmp xs n ! k = xs ! k"
proof (cases "1 < n")
  case True
  from pop_heap_unfold [OF True assms(1), of cmp] assms(2,3) True show ?thesis
    by (simp add: nth_sift_down_outside nth_swap)
next
  case False
  then show ?thesis by (simp add: pop_heap_def)
qed

lemma pop_heap_heap:
  assumes "is_heap (by_key key) xs n" and "n \<le> length xs"
  shows "is_heap (by_key key) (pop_heap (by_key key) xs n) (n - 1)"
proof (cases "n \<le> 1")
  case True
  then show ?thesis by (simp add: is_heap_def)
next
  case False
  let ?ys = "swap xs 0 (n - 1)"
  have len: "0 < length xs" "n - 1 < length xs" using False assms(2) by (cases xs; simp)+
  have nth: "?ys ! k = xs ! k" if "0 < k" "k < n - 1" for k
    using that assms(2) len by (simp add: nth_swap)
  have "down_inv key ?ys (n - 1) 0"
    unfolding down_inv_def
  proof (intro conjI allI impI)
    fix j assume j: "0 < j \<and> j < n - 1 \<and> parent j \<noteq> 0"
    then have "parent j < j" by (simp add: parent_less)
    then have "?ys ! parent j = xs ! parent j" "?ys ! j = xs ! j"
      using nth [of j] nth [of "parent j"] j by simp_all
    moreover have "j < n" using j by arith
    ultimately show "key (?ys ! j) \<le> key (?ys ! parent j)"
      using assms(1) j by (simp add: is_heap_by_key)
  next
    fix j assume "0 < j \<and> j < n - 1 \<and> parent j = 0 \<and> (0::nat) < 0"
    then show "key (?ys ! j) \<le> key (?ys ! parent 0)" by simp
  qed
  then have "is_heap (by_key key) (sift_down (by_key key) ?ys (n - 1) 0) (n - 1)"
    using sift_down_heap [of key ?ys "n - 1" 0] assms(2) by simp
  then show ?thesis using False by (simp add: pop_heap_def)
qed

section \<open>The open list\<close>

lemma getVertexComparator_by_key: "getVertexComparator = by_key Vertex_getDepth"
  by (intro ext) (simp add: getVertexComparator_def by_key_def)

lemma push_rejected_infeasible: "parentEdgeInfeasible v \<Longrightarrow> pushVertexQueue p v = p"
  by (cases "Vertex_parentEdge v") (simp_all add: pushVertexQueue_def parentEdgeInfeasible_def isRoot_def)



lemma push_cases:
  "pushVertexQueue p v = p \<or>
   pushVertexQueue p v = p\<lparr>m_VertexQueue := push_heap getVertexComparator (m_VertexQueue p @ [v])\<rparr>"
  by (simp add: pushVertexQueue_def)

lemma push_same_search: "same_search p (pushVertexQueue p v)"
proof (cases "pushVertexQueue p v = p")
  case True
  then show ?thesis by (simp add: same_search_def)
next
  case False
  with push_cases [of p v] have eq: "pushVertexQueue p v =
      p\<lparr>m_VertexQueue := push_heap getVertexComparator (m_VertexQueue p @ [v])\<rparr>" by blast
  show ?thesis unfolding eq by (simp add: same_search_def)
qed

lemma push_mset:
  "mset (m_VertexQueue (pushVertexQueue p v)) =
     (if pushVertexQueue p v = p then mset (m_VertexQueue p) else mset (m_VertexQueue p) + {#v#})"
proof (cases "pushVertexQueue p v = p")
  case True
  then show ?thesis by simp
next
  case False
  with push_cases [of p v] have eq: "pushVertexQueue p v =
      p\<lparr>m_VertexQueue := push_heap getVertexComparator (m_VertexQueue p @ [v])\<rparr>" by blast
  have "mset (m_VertexQueue (p\<lparr>m_VertexQueue := push_heap getVertexComparator (m_VertexQueue p @ [v])\<rparr>))
      = mset (m_VertexQueue p) + {#v#}" by simp
  then show ?thesis using False eq by simp
qed

lemma push_set:
  assumes "u \<in> set (m_VertexQueue (pushVertexQueue p v))"
  shows "u \<in> set (m_VertexQueue p) \<or> (u = v \<and> pushVertexQueue p v \<noteq> p)"
proof (cases "pushVertexQueue p v = p")
  case True
  with assms show ?thesis by simp
next
  case False
  have "u \<in># mset (m_VertexQueue (pushVertexQueue p v))" using assms by simp
  then have "u \<in># mset (m_VertexQueue p) + {#v#}" using push_mset [of p v] False by simp
  then show ?thesis using False by auto
qed

lemma pop_empty: "m_VertexQueue p = [] \<Longrightarrow> popVertexQueue p = Inl out_of_range"
  by (simp add: popVertexQueue_def)

lemma pop_nonempty:
  assumes "m_VertexQueue p \<noteq> []"
  shows "popVertexQueue p = Inr (hd (m_VertexQueue p),
           p\<lparr>m_VertexQueue := butlast (pop_heap getVertexComparator (m_VertexQueue p) (length (m_VertexQueue p)))\<rparr>)"
proof -
  let ?xs = "m_VertexQueue p"
  let ?q = "pop_heap getVertexComparator ?xs (length ?xs)"
  have n: "0 < length ?xs" using assms by simp
  have "?q \<noteq> []" using assms by (metis length_pop_heap length_0_conv)
  then have "last ?q = ?q ! (length ?xs - 1)" by (simp add: last_conv_nth)
  also have "\<dots> = ?xs ! 0" using nth_pop_heap_back [OF n, of ?xs getVertexComparator] by simp
  also have "\<dots> = hd ?xs" using assms by (simp add: hd_conv_nth)
  finally show ?thesis using assms by (simp add: popVertexQueue_def Let_def)
qed

lemma pop_mset:
  assumes "popVertexQueue p = Inr (v, p')"
  shows "mset (m_VertexQueue p) = mset (m_VertexQueue p') + {#v#} \<and> same_search p p'"
proof -
  let ?xs = "m_VertexQueue p"
  let ?q = "pop_heap getVertexComparator ?xs (length ?xs)"
  have ne: "?xs \<noteq> []" using assms by (auto simp: popVertexQueue_def split: if_splits)
  then have q: "?q \<noteq> []" by (metis length_pop_heap length_0_conv)
  have v: "v = last ?q" "p' = p\<lparr>m_VertexQueue := butlast ?q\<rparr>"
    using assms ne by (auto simp: popVertexQueue_def Let_def)
  have "mset ?xs = mset ?q" by simp
  also have "\<dots> = mset (butlast ?q @ [last ?q])" using q by simp
  finally show ?thesis using v by (simp add: same_search_def)
qed

lemma same_search_trans: "same_search p q \<Longrightarrow> same_search q r \<Longrightarrow> same_search p r"
  by (simp add: same_search_def)

lemma queue_ops_origin:
  "u \<in> set (m_VertexQueue (queue_ops p ops)) \<Longrightarrow>
   u \<in> set (m_VertexQueue p) \<or> (\<exists>q. same_search p q \<and> pushVertexQueue q u \<noteq> q)"
proof (induction p ops rule: queue_ops.induct)
  case (1 p)
  then show ?case by simp
next
  case (2 p v ops)
  from 2 have "u \<in> set (m_VertexQueue (pushVertexQueue p v))
      \<or> (\<exists>q. same_search (pushVertexQueue p v) q \<and> pushVertexQueue q u \<noteq> q)" by simp
  then show ?case
  proof
    assume "u \<in> set (m_VertexQueue (pushVertexQueue p v))"
    from push_set [OF this] have "u \<in> set (m_VertexQueue p) \<or> pushVertexQueue p u \<noteq> p"
      by blast
    moreover have "same_search p p" by (simp add: same_search_def)
    ultimately show ?thesis by blast
  next
    assume "\<exists>q. same_search (pushVertexQueue p v) q \<and> pushVertexQueue q u \<noteq> q"
    then show ?thesis using same_search_trans [OF push_same_search] by blast
  qed
next
  case (3 p ops)
  show ?case
  proof (cases "popVertexQueue p")
    case (Inl e)
    with 3 show ?thesis by simp
  next
    case (Inr r)
    obtain v p' where r: "r = (v, p')" by (cases r)
    have pp: "popVertexQueue p = Inr (v, p')" using Inr r by simp
    from pop_mset [OF pp]
    have m: "mset (m_VertexQueue p) = mset (m_VertexQueue p') + {#v#}" and s: "same_search p p'"
      by simp_all
    have "u \<in> set (m_VertexQueue (queue_ops p' ops))" using 3(3) pp by simp
    then have "u \<in> set (m_VertexQueue p') \<or> (\<exists>q. same_search p' q \<and> pushVertexQueue q u \<noteq> q)"
      by (rule 3(2) [OF pp refl])
    then show ?thesis
    proof
      assume "u \<in> set (m_VertexQueue p')"
      then have "u \<in># mset (m_VertexQueue p)" using m by simp
      then show ?thesis by simp
    next
      assume "\<exists>q. same_search p' q \<and> pushVertexQueue q u \<noteq> q"
      then show ?thesis using same_search_trans [OF s] by blast
    qed
  qed
qed

lemma is_heap_butlast:
  "is_heap cmp xs (length xs - 1) \<Longrightarrow> is_heap cmp (butlast xs) (length (butlast xs))"
proof -
  assume h: "is_heap cmp xs (length xs - 1)"
  have "butlast xs ! j = xs ! j \<and> butlast xs ! parent j = xs ! parent j"
    if "0 < j" "j < length xs - 1" for j
    using that parent_less [of j] by (simp add: nth_butlast)
  then show ?thesis using h by (simp add: is_heap_def)
qed

lemma push_heap_inv:
  assumes "is_heap getVertexComparator (m_VertexQueue p) (length (m_VertexQueue p))"
  shows "is_heap getVertexComparator (m_VertexQueue (pushVertexQueue p v))
           (length (m_VertexQueue (pushVertexQueue p v)))"
proof (cases "pushVertexQueue p v = p")
  case True
  with assms show ?thesis by simp
next
  case False
  with push_cases [of p v] have eq: "pushVertexQueue p v =
      p\<lparr>m_VertexQueue := push_heap getVertexComparator (m_VertexQueue p @ [v])\<rparr>" by blast
  show ?thesis unfolding eq
    using push_heap_heap [of Vertex_getDepth "m_VertexQueue p" v] assms
    by (simp add: getVertexComparator_by_key)
qed

lemma pop_heap_inv:
  assumes "is_heap getVertexComparator (m_VertexQueue p) (length (m_VertexQueue p))"
    and "popVertexQueue p = Inr (v, p')"
  shows "is_heap getVertexComparator (m_VertexQueue p') (length (m_VertexQueue p'))"
proof -
  let ?xs = "m_VertexQueue p"
  let ?q = "pop_heap getVertexComparator ?xs (length ?xs)"
  have ne: "?xs \<noteq> []" using assms(2) by (auto simp: popVertexQueue_def split: if_splits)
  have p': "p' = p\<lparr>m_VertexQueue := butlast ?q\<rparr>"
    using assms(2) pop_nonempty [OF ne] by simp
  have "is_heap getVertexComparator ?q (length ?xs - 1)"
    using pop_heap_heap [of Vertex_getDepth ?xs "length ?xs"] assms(1)
    by (simp add: getVertexComparator_by_key)
  then have "is_heap getVertexComparator (butlast ?q) (length (butlast ?q))"
    using is_heap_butlast [of getVertexComparator ?q] by simp
  then show ?thesis by (simp add: p')
qed

lemma queue_ops_heap:
  "is_heap getVertexComparator (m_VertexQueue p) (length (m_VertexQueue p)) \<Longrightarrow>
   is_heap getVertexComparator (m_VertexQueue (queue_ops p ops))
     (length (m_VertexQueue (queue_ops p ops)))"
proof (induction p ops rule: queue_ops.induct)
  case (1 p)
  then show ?case by simp
next
  case (2 p v ops)
  then show ?case using push_heap_inv [of p v] by simp
next
  case (3 p ops)
  show ?case
  proof (cases "popVertexQueue p")
    case (Inl e)
    with 3 show ?thesis by simp
  next
    case (Inr r)
    obtain v p' where r: "r = (v, p')" by (cases r)
    have pp: "popVertexQueue p = Inr (v, p')" using Inr r by simp
    have "is_heap getVertexComparator (m_VertexQueue (queue_ops p' ops))
       (length (m_VertexQueue (queue_ops p' ops)))"
      using 3(2) [OF pp refl] pop_heap_inv [OF 3(3) pp] by simp
    then show ?thesis using pp by simp
  qed
qed

lemma heap_pop_max:
  assumes "is_heap getVertexComparator (m_VertexQueue p) (length (m_VertexQueue p))"
    and "u \<in> set (m_VertexQueue p)"
  shows "Vertex_getDepth u \<le> Vertex_getDepth (hd (m_VertexQueue p))"
proof -
  from assms(2) obtain j where j: "j < length (m_VertexQueue p)" "m_VertexQueue p ! j = u"
    by (auto simp: in_set_conv_nth)
  then have "m_VertexQueue p \<noteq> []" by auto
  then have "hd (m_VertexQueue p) = m_VertexQueue p ! 0" by (simp add: hd_conv_nth)
  then show ?thesis
    using heap_front_max [of Vertex_getDepth "m_VertexQueue p" "length (m_VertexQueue p)" j] assms(1) j
    by (simp add: getVertexComparator_by_key)
qed

text \<open>C4: on an empty open list \<^verbatim>\<open>popVertexQueue\<close> fails with \<open>out_of_range\<close>
  ("Trying to pop an empty vertex queue"); on a non-empty one it returns a vertex that was
  queued, never a null or default one, and removes exactly that vertex.\<close>

theorem popVertexQueue_empty_or_vertex:
  "(m_VertexQueue p = [] \<longrightarrow> popVertexQueue p = Inl out_of_range) \<and>
   (m_VertexQueue p \<noteq> [] \<longrightarrow>
      (\<exists>v p'. popVertexQueue p = Inr (v, p') \<and> v \<in> set (m_VertexQueue p) \<and>
         mset (m_VertexQueue p) = mset (m_VertexQueue p') + {#v#}))"
proof (intro conjI impI)
  assume "m_VertexQueue p = []"
  then show "popVertexQueue p = Inl out_of_range" by (rule pop_empty)
next
  assume ne: "m_VertexQueue p \<noteq> []"
  from pop_nonempty [OF ne] obtain p' where pp: "popVertexQueue p = Inr (hd (m_VertexQueue p), p')"
    by blast
  from pop_mset [OF pp] ne pp
  show "\<exists>v p'. popVertexQueue p = Inr (v, p') \<and> v \<in> set (m_VertexQueue p) \<and>
         mset (m_VertexQueue p) = mset (m_VertexQueue p') + {#v#}"
    by auto
qed

lemma example_push1:
  "pushVertexQueue (example_planner None) (example_vertex 1 3 4) =
     (example_planner None)\<lparr>m_VertexQueue := [example_vertex 1 3 4]\<rparr>"
  by (simp add: pushVertexQueue_def example_defs isRoot_def push_heap_def sift_up.simps)

theorem popVertexQueue_empty_or_vertex_witness:
  "m_VertexQueue (example_planner None) = [] \<and>
   popVertexQueue (example_planner None) = Inl out_of_range \<and>
   m_VertexQueue (pushVertexQueue (example_planner None) (example_vertex 1 3 4)) \<noteq> [] \<and>
   (\<exists>v p'. popVertexQueue (pushVertexQueue (example_planner None) (example_vertex 1 3 4)) = Inr (v, p') \<and>
        v \<in> set (m_VertexQueue (pushVertexQueue (example_planner None) (example_vertex 1 3 4))) \<and>
        mset (m_VertexQueue (pushVertexQueue (example_planner None) (example_vertex 1 3 4)))
          = mset (m_VertexQueue p') + {#v#})"
  using popVertexQueue_empty_or_vertex [of "example_planner None"]
    popVertexQueue_empty_or_vertex [of "pushVertexQueue (example_planner None) (example_vertex 1 3 4)"]
  by (simp add: example_push1) (simp add: example_planner_def)

text \<open>C5: the goal condition is monotonic in time. For a fixed planner (start time and
  configuration), if a vertex satisfies the goal condition, so does every vertex of the same
  coverage-completion status whose state has a later time.\<close>

theorem goalCondition_monotonic_in_time:
  "goalCondition p v \<Longrightarrow> Vertex_done v' = Vertex_done v \<Longrightarrow>
   State_time (Vertex_state v) < State_time (Vertex_state v') \<Longrightarrow> goalCondition p v'"
  by (auto simp: goalCondition_def)

theorem goalCondition_monotonic_in_time_witness:
  "goalCondition (example_planner None) (example_vertex 7 9 30) \<and>
   Vertex_done (example_vertex 8 9 31) = Vertex_done (example_vertex 7 9 30) \<and>
   State_time (Vertex_state (example_vertex 7 9 30)) < State_time (Vertex_state (example_vertex 8 9 31)) \<and>
   goalCondition (example_planner None) (example_vertex 8 9 31)"
proof -
  have 1: "goalCondition (example_planner None) (example_vertex 7 9 30)"
    by (simp add: goalCondition_def example_defs)
  have 2: "Vertex_done (example_vertex 8 9 31) = Vertex_done (example_vertex 7 9 30)"
    by (simp add: example_defs)
  have 3: "State_time (Vertex_state (example_vertex 7 9 30)) < State_time (Vertex_state (example_vertex 8 9 31))"
    by (simp add: example_defs)
  from goalCondition_monotonic_in_time [OF 1 2 3] 1 2 3 show ?thesis by simp
qed

text \<open>C2: \<^verbatim>\<open>pushVertexQueue\<close> returns without inserting a vertex whose parent edge is marked
  infeasible, so an open list without such a vertex (the empty one, for instance) has none
  after any sequence of pushes and pops.\<close>

theorem push_never_inserts_infeasible:
  "(parentEdgeInfeasible v \<longrightarrow> pushVertexQueue p v = p) \<and>
   ((\<forall>u \<in> set (m_VertexQueue p). \<not> parentEdgeInfeasible u) \<longrightarrow>
    (\<forall>u \<in> set (m_VertexQueue (queue_ops p ops)). \<not> parentEdgeInfeasible u))"
proof (intro conjI impI ballI)
  assume "parentEdgeInfeasible v"
  then show "pushVertexQueue p v = p" by (rule push_rejected_infeasible)
next
  fix u
  assume inv: "\<forall>u \<in> set (m_VertexQueue p). \<not> parentEdgeInfeasible u"
    and u: "u \<in> set (m_VertexQueue (queue_ops p ops))"
  from queue_ops_origin [OF u] show "\<not> parentEdgeInfeasible u"
    using inv push_rejected_infeasible by blast
qed

lemma example_ops_queue:
  "m_VertexQueue (queue_ops (example_planner None) example_ops) =
     [example_vertex 2 3 8, example_vertex 1 9 4, example_vertex 1 1 2]"
  by (simp add: example_ops_def pushVertexQueue_def example_defs infeasible_vertex_def isRoot_def
      push_heap_def sift_up.simps parent_def swap_def getVertexComparator_def)

theorem push_never_inserts_infeasible_witness:
  "parentEdgeInfeasible infeasible_vertex \<and>
   pushVertexQueue (example_planner None) infeasible_vertex = example_planner None \<and>
   m_VertexQueue (example_planner None) = [] \<and>
   \<not> parentEdgeInfeasible (hd (m_VertexQueue (queue_ops (example_planner None) example_ops)))"
proof -
  have 1: "parentEdgeInfeasible infeasible_vertex"
    by (simp add: parentEdgeInfeasible_def infeasible_vertex_def example_defs)
  have 2: "m_VertexQueue (example_planner None) = []"
    by (simp add: example_planner_def)
  from push_never_inserts_infeasible [of infeasible_vertex "example_planner None" example_ops] 1 2
  show ?thesis by (simp add: example_ops_queue)
qed





text \<open>C3: in every non-empty open list reached from the empty one by pushes and pops,
  \<^verbatim>\<open>popVertexQueue\<close> removes and returns a vertex of maximal depth among the queued
  vertices, whatever their total costs are. In the example that follows the theorem the
  vertex popped has depth 2 and total cost 3 while one of depth 1 and total cost 1 is
  queued.\<close>

theorem popVertexQueue_maximal_depth:
  assumes "m_VertexQueue p0 = []" and "p = queue_ops p0 ops" and "m_VertexQueue p \<noteq> []"
  shows "\<exists>v p'. popVertexQueue p = Inr (v, p') \<and> v \<in> set (m_VertexQueue p) \<and>
           (\<forall>u \<in> set (m_VertexQueue p). Vertex_getDepth u \<le> Vertex_getDepth v) \<and>
           mset (m_VertexQueue p) = mset (m_VertexQueue p') + {#v#}"
proof -
  have "is_heap getVertexComparator (m_VertexQueue p0) (length (m_VertexQueue p0))"
    using assms(1) by (simp add: is_heap_def)
  then have h: "is_heap getVertexComparator (m_VertexQueue p) (length (m_VertexQueue p))"
    unfolding assms(2) by (rule queue_ops_heap)
  from pop_nonempty [OF assms(3)] obtain p' where pp: "popVertexQueue p = Inr (hd (m_VertexQueue p), p')"
    by blast
  have "hd (m_VertexQueue p) \<in> set (m_VertexQueue p)" using assms(3) by simp
  moreover have "\<forall>u \<in> set (m_VertexQueue p). Vertex_getDepth u \<le> Vertex_getDepth (hd (m_VertexQueue p))"
    using heap_pop_max [OF h] by blast
  moreover have "mset (m_VertexQueue p) = mset (m_VertexQueue p') + {#hd (m_VertexQueue p)#}"
    using pop_mset [OF pp] by simp
  ultimately show ?thesis using pp by blast
qed

theorem popVertexQueue_maximal_depth_witness:
  "m_VertexQueue (example_planner None) = [] \<and>
   m_VertexQueue (queue_ops (example_planner None) example_ops) \<noteq> [] \<and>
   (\<exists>v p'. popVertexQueue (queue_ops (example_planner None) example_ops) = Inr (v, p') \<and>
      v \<in> set (m_VertexQueue (queue_ops (example_planner None) example_ops)) \<and>
      (\<forall>u \<in> set (m_VertexQueue (queue_ops (example_planner None) example_ops)).
          Vertex_getDepth u \<le> Vertex_getDepth v) \<and>
      mset (m_VertexQueue (queue_ops (example_planner None) example_ops))
        = mset (m_VertexQueue p') + {#v#}) \<and>
   map_sum id fst (popVertexQueue (queue_ops (example_planner None) example_ops))
     = Inr (example_vertex 2 3 8) \<and>
   Vertex_f (example_vertex 1 1 2) < Vertex_f (example_vertex 2 3 8)"
proof -
  have 1: "m_VertexQueue (example_planner None) = []"
    by (simp add: example_planner_def)
  have 2: "m_VertexQueue (queue_ops (example_planner None) example_ops) \<noteq> []"
    by (simp add: example_ops_queue)
  have 3: "map_sum id fst (popVertexQueue (queue_ops (example_planner None) example_ops))
     = Inr (example_vertex 2 3 8)"
    using pop_nonempty [OF 2] by (simp add: example_ops_queue)
  have 4: "Vertex_f (example_vertex 1 1 2) < Vertex_f (example_vertex 2 3 8)"
    by (simp add: Vertex_f_def example_vertex_def)
  from popVertexQueue_maximal_depth [OF 1 refl 2] 1 2 3 4 show ?thesis by blast
qed

section \<open>Expansion: the bounded selections\<close>

lemma getDubinsComparator_by_key: "getDubinsComparator = by_key approxCost"
  by (intro ext) (simp add: getDubinsComparator_def by_key_def)

text \<open>Dropping the front of a heap: what is dropped is a greatest element.\<close>

lemma drop_front:
  assumes h: "is_heap (by_key key) xs (length xs)" and ne: "xs \<noteq> []"
  defines "q \<equiv> pop_heap (by_key key) xs (length xs)"
  shows "is_heap (by_key key) (butlast q) (length (butlast q))"
    and "mset (butlast q) + {#last q#} = mset xs"
    and "\<forall>u \<in> set xs. key u \<le> key (last q)"
proof -
  have n: "0 < length xs" using ne by simp
  have qne: "q \<noteq> []" using ne unfolding q_def by (metis length_pop_heap length_0_conv)
  have "is_heap (by_key key) q (length xs - 1)"
    unfolding q_def using pop_heap_heap [OF h] by simp
  then show "is_heap (by_key key) (butlast q) (length (butlast q))"
    using is_heap_butlast [of "by_key key" q] by (simp add: q_def)
  have "mset (butlast q @ [last q]) = mset q" using qne by simp
  then show "mset (butlast q) + {#last q#} = mset xs" by (simp add: q_def)
  have "last q = q ! (length xs - 1)" using qne by (simp add: last_conv_nth q_def)
  also have "\<dots> = xs ! 0" unfolding q_def using nth_pop_heap_back [OF n, of xs "by_key key"] by simp
  finally have l: "last q = xs ! 0" .
  show "\<forall>u \<in> set xs. key u \<le> key (last q)"
  proof
    fix u assume "u \<in> set xs"
    then obtain j where "j < length xs" "xs ! j = u" by (auto simp: in_set_conv_nth)
    then show "key u \<le> key (last q)" using heap_front_max [OF h, of j] l by simp
  qed
qed

lemma keep_candidate_inv:
  assumes inv: "selection_inv (to_size_t kk) best drp" and K: "0 < to_size_t kk"
    and kc: "keep_candidate env kk sourceVertex sample radius coverage best = (best', d)"
  shows "selection_inv (to_size_t kk) best' ((case d of None \<Rightarrow> [] | Some v \<Rightarrow> [v]) @ drp)"
proof -
  let ?K = "to_size_t kk"
  let ?v = "computeApproxCost env (connect env sourceVertex sample radius coverage)"
  let ?pushed = "push_heap getDubinsComparator (best @ [?v])"
  have hb: "is_heap (by_key approxCost) best (length best)" and lb: "length best \<le> ?K"
    and full: "drp \<noteq> [] \<Longrightarrow> length best = ?K"
    and le: "\<And>r e. r \<in> set best \<Longrightarrow> e \<in> set drp \<Longrightarrow> approxCost r \<le> approxCost e"
    using inv by (simp_all add: selection_inv_def getDubinsComparator_by_key)
  have hp: "is_heap (by_key approxCost) ?pushed (length ?pushed)"
    using push_heap_heap [OF hb, of ?v] by (simp add: getDubinsComparator_by_key)
  have mp: "mset ?pushed = mset best + {#?v#}" by simp
  have lp: "length ?pushed = Suc (length best)" by simp
  show ?thesis
  proof (cases "length ?pushed > ?K")
    case False
    then have res: "best' = ?pushed" "d = None"
      using kc by (simp_all add: keep_candidate_def Let_def)
    have "length best < ?K" using False lp by simp
    then have "drp = []" using full by auto
    then show ?thesis using hp False res
      by (simp add: selection_inv_def getDubinsComparator_by_key)
  next
    case True
    let ?q = "pop_heap getDubinsComparator ?pushed (length ?pushed)"
    have res: "best' = butlast ?q" "d = Some (last ?q)"
      using kc True by (simp_all add: keep_candidate_def Let_def)
    have len: "length best = ?K" using True lb lp by simp
    have pne: "?pushed \<noteq> []" using lp by (metis length_0_conv nat.distinct(1))
    note df = drop_front [OF hp pne, folded getDubinsComparator_by_key]
    have h': "is_heap getDubinsComparator best' (length best')"
      using df(1) res by (simp add: getDubinsComparator_by_key)
    have m': "mset best' + {#last ?q#} = mset best + {#?v#}"
      using df(2) res mp by simp
    have mx: "\<And>u. u \<in># mset best + {#?v#} \<Longrightarrow> approxCost u \<le> approxCost (last ?q)"
      using df(3) mp by (metis set_mset_mset)
    have l': "length best' = ?K"
    proof -
      have "size (mset best' + {#last ?q#}) = size (mset best + {#?v#})" using m' by simp
      then show ?thesis using len by simp
    qed
    have sub: "r \<in># mset best + {#?v#}" if "r \<in> set best'" for r
    proof -
      have "r \<in># mset best' + {#last ?q#}" using that by simp
      then show ?thesis by (simp only: m')
    qed
    have old: "approxCost r \<le> approxCost e" if r: "r \<in> set best'" and e: "e \<in> set drp" for r e
    proof (cases "r \<in> set best")
      case True
      then show ?thesis using le e by simp
    next
      case False
      then have rv: "r = ?v" using sub [OF r] by auto
      have "last ?q \<in># mset best' + {#last ?q#}" by simp
      then have "last ?q \<in># mset best + {#?v#}" by (simp only: m')
      then have "last ?q \<in> set best \<or> last ?q = ?v" by auto
      then show ?thesis
      proof
        assume "last ?q \<in> set best"
        then have "approxCost (last ?q) \<le> approxCost e" using le e by simp
        moreover have "approxCost r \<le> approxCost (last ?q)" using mx sub [OF r] by simp
        ultimately show ?thesis by simp
      next
        assume "last ?q = ?v"
        then have "mset best' = mset best" using m' by simp
        then have "r \<in> set best" using r by (metis set_mset_mset)
        with False show ?thesis by simp
      qed
    qed
    have new: "approxCost r \<le> approxCost (last ?q)" if "r \<in> set best'" for r
      using mx sub [OF that] by simp
    show ?thesis using h' l' old new res
      by (auto simp: selection_inv_def)
  qed
qed

lemma consider_sample_inv:
  assumes inv: "selection_inv (to_size_t (k_branching p)) best drp" and K: "0 < to_size_t (k_branching p)"
  shows "consider_sample env p sourceVertex sample radius coverage best = Inr Finished \<or>
         consider_sample env p sourceVertex sample radius coverage best = Inr Skipped \<or>
         (\<exists>best' d. consider_sample env p sourceVertex sample radius coverage best = Inr (Kept best' d)
            \<and> selection_inv (to_size_t (k_branching p)) best' ((case d of None \<Rightarrow> [] | Some v \<Rightarrow> [v]) @ drp))"
proof -
  obtain best' d where kc: "keep_candidate env (k_branching p) sourceVertex sample radius coverage best = (best', d)"
    by (cases "keep_candidate env (k_branching p) sourceVertex sample radius coverage best")
  have "selection_inv (to_size_t (k_branching p)) best' ((case d of None \<Rightarrow> [] | Some v \<Rightarrow> [v]) @ drp)"
    using keep_candidate_inv [OF inv K kc] .
  moreover have "\<not> (\<not> length best < to_size_t (k_branching p) \<and> best = [])" using K by auto
  ultimately show ?thesis using kc by (simp add: consider_sample_def)
qed

lemma scan_regular_inv:
  assumes inv: "scan_inv (to_size_t (k_branching p)) sc" and K: "0 < to_size_t (k_branching p)"
  shows "\<exists>sc'. scan_regular env p sourceVertex sample sc = Inr sc' \<and> scan_inv (to_size_t (k_branching p)) sc'"
proof (cases "regularDone sc")
  case True
  then show ?thesis using inv by (simp add: scan_regular_def scan_inv_def)
next
  case False
  have "selection_inv (to_size_t (k_branching p)) (bestSamples sc) (dropped sc)"
    using inv by (simp add: scan_inv_def)
  from consider_sample_inv [OF this K, of env sourceVertex sample "turningRadius (m_Config p)" False]
  show ?thesis using False inv by (auto simp: scan_regular_def scan_inv_def)
qed

lemma scan_coverage_inv:
  assumes inv: "scan_inv (to_size_t (k_branching p)) sc" and K: "0 < to_size_t (k_branching p)"
  shows "\<exists>sc'. scan_coverage env p sourceVertex sample sc = Inr sc' \<and> scan_inv (to_size_t (k_branching p)) sc'"
proof (cases "coverageDone sc")
  case True
  then show ?thesis using inv by (simp add: scan_coverage_def scan_inv_def)
next
  case False
  have "selection_inv (to_size_t (k_branching p)) (bestCoverageSamples sc) (droppedCoverage sc)"
    using inv by (simp add: scan_inv_def)
  from consider_sample_inv [OF this K, of env sourceVertex sample "coverageTurningRadius (m_Config p)" True]
  show ?thesis using False inv by (auto simp: scan_coverage_def scan_inv_def)
qed

lemma scan_body_inv:
  assumes inv: "scan_inv (to_size_t (k_branching p)) sc" and K: "0 < to_size_t (k_branching p)"
  shows "\<exists>sc'. scan_body env p sourceVertex i sc = Inr sc' \<and> scan_inv (to_size_t (k_branching p)) sc'"
proof -
  let ?sc1 = "sc\<lparr>samples := pop_heap (getStateComparator env (Vertex_state sourceVertex))
                                  (samples sc) (length (samples sc) - i)\<rparr>"
  have "scan_inv (to_size_t (k_branching p)) ?sc1" using inv by (simp add: scan_inv_def)
  from scan_regular_inv [OF this K, of env sourceVertex "hd (samples sc)"]
  obtain sc2 where 2: "scan_regular env p sourceVertex (hd (samples sc)) ?sc1 = Inr sc2"
    "scan_inv (to_size_t (k_branching p)) sc2" by blast
  from scan_coverage_inv [OF 2(2) K, of env sourceVertex "hd (samples sc)"] 2(1)
  show ?thesis by (simp add: scan_body_def Let_def)
qed

lemma scan_loop_inv:
  "scan_inv (to_size_t (k_branching p)) sc \<Longrightarrow> 0 < to_size_t (k_branching p) \<Longrightarrow>
   \<exists>sc'. scan_loop env p sourceVertex i sc = Inr sc' \<and> scan_inv (to_size_t (k_branching p)) sc'"
proof (induction env p sourceVertex i sc rule: scan_loop.induct)
  case (1 env p sourceVertex i sc)
  show ?case
  proof (cases "i < length (samples sc) \<and> (\<not> regularDone sc \<or> \<not> coverageDone sc)")
    case False
    then show ?thesis using 1(2) by (auto simp: scan_loop.simps [of env p sourceVertex i sc])
  next
    case True
    from scan_body_inv [OF 1(2,3), of env sourceVertex i]
    obtain sc1 where b: "scan_body env p sourceVertex i sc = Inr sc1" "scan_inv (to_size_t (k_branching p)) sc1"
      by blast
    from 1(1) [OF True b(1) b(2) 1(3)] True b(1)
    show ?thesis by (simp add: scan_loop.simps [of env p sourceVertex i sc])
  qed
qed

lemma to_size_t_int: "0 < i \<Longrightarrow> i < 2 ^ 31 \<Longrightarrow> 0 < to_size_t i \<and> int (to_size_t i) = i"
  by (simp add: to_size_t_def)

lemma example_selection:
  "map_sum id (\<lambda>sc. (map approxCost (bestSamples sc), map approxCost (dropped sc),
       bestCoverageSamples sc, droppedCoverage sc))
     (select_candidates example_env (pool_planner 1) example_source) = Inr ([4], [6], [], [])"
  by (simp add: expand_defs example_env_defs example_defs Let_def)

lemma keep_candidate_drops_worst:
  assumes h: "is_heap getDubinsComparator best (length best)"
    and kc: "keep_candidate env kk sourceVertex sample radius coverage best = (best', Some e)"
  shows "(\<forall>u \<in> set best'. approxCost u \<le> approxCost e) \<and>
         mset best' + {#e#} =
           mset best + {#computeApproxCost env (connect env sourceVertex sample radius coverage)#}"
proof -
  let ?v = "computeApproxCost env (connect env sourceVertex sample radius coverage)"
  let ?pushed = "push_heap getDubinsComparator (best @ [?v])"
  let ?q = "pop_heap getDubinsComparator ?pushed (length ?pushed)"
  have hp: "is_heap (by_key approxCost) ?pushed (length ?pushed)"
    using push_heap_heap [of approxCost best ?v] h by (simp add: getDubinsComparator_by_key)
  have pne: "?pushed \<noteq> []" by (metis length_push_heap length_0_conv snoc_eq_iff_butlast)
  have res: "best' = butlast ?q" "e = last ?q"
    using kc by (auto simp: keep_candidate_def Let_def split: if_splits)
  note df = drop_front [OF hp pne, folded getDubinsComparator_by_key]
  have m: "mset best' + {#e#} = mset best + {#?v#}" using df(2) res by simp
  have "approxCost u \<le> approxCost e" if "u \<in> set best'" for u
  proof -
    have "set_mset (mset best' + {#e#}) = set_mset (mset best + {#?v#})" by (simp only: m)
    then have "insert e (set best') = insert ?v (set best)" by simp
    then have "u \<in> insert ?v (set best)" using that by blast
    moreover have "set ?pushed = insert ?v (set best)"
      using mset_eq_setD [OF mset_push_heap [of getDubinsComparator "best @ [?v]"]] by simp
    ultimately have "u \<in> set ?pushed" by simp
    then have "approxCost u \<le> approxCost (last ?q)" using df(3) by blast
    then show ?thesis using res by simp
  qed
  then show ?thesis using m by blast
qed

lemma coverage_scan_disabled_step:
  assumes "coverageDone sc" "bestCoverageSamples sc = []" "droppedCoverage sc = []"
    and "scan_body env p sourceVertex i sc = Inr sc'"
  shows "coverageDone sc' \<and> bestCoverageSamples sc' = [] \<and> droppedCoverage sc' = []"
proof -
  let ?sc1 = "sc\<lparr>samples := pop_heap (getStateComparator env (Vertex_state sourceVertex))
                                  (samples sc) (length (samples sc) - i)\<rparr>"
  from assms(4) obtain sc2 where 2: "scan_regular env p sourceVertex (hd (samples sc)) ?sc1 = Inr sc2"
    and 3: "scan_coverage env p sourceVertex (hd (samples sc)) sc2 = Inr sc'"
    by (auto simp: scan_body_def Let_def split: sum.splits)
  have "coverageDone sc2 \<and> bestCoverageSamples sc2 = [] \<and> droppedCoverage sc2 = []"
    using 2 assms(1-3)
    by (auto simp: scan_regular_def split: if_splits sum.splits decision.splits)
  then show ?thesis using 3 by (auto simp: scan_coverage_def)
qed

lemma coverage_scan_disabled_loop:
  "coverageDone sc \<Longrightarrow> bestCoverageSamples sc = [] \<Longrightarrow> droppedCoverage sc = [] \<Longrightarrow>
   scan_loop env p sourceVertex i sc = Inr sc' \<Longrightarrow>
   bestCoverageSamples sc' = [] \<and> droppedCoverage sc' = []"
proof (induction env p sourceVertex i sc rule: scan_loop.induct)
  case (1 env p sourceVertex i sc)
  show ?case
  proof (cases "i < length (samples sc) \<and> (\<not> regularDone sc \<or> \<not> coverageDone sc)")
    case False
    then have "sc' = sc" using 1(5) by (auto simp: scan_loop.simps [of env p sourceVertex i sc])
    then show ?thesis using 1(3,4) by simp
  next
    case True
    then obtain sc1 where b: "scan_body env p sourceVertex i sc = Inr sc1"
      and l: "scan_loop env p sourceVertex (i + 1) sc1 = Inr sc'"
      using 1(5) by (auto simp: scan_loop.simps [of env p sourceVertex i sc] split: sum.splits)
    from coverage_scan_disabled_step [OF 1(2-4) b]
    show ?thesis using 1(1) [OF True b _ _ _ l] by simp
  qed
qed

text \<open>With a non-positive coverage turning radius the scan of the pool makes no
  coverage-mode candidate.\<close>

lemma coverage_scan_disabled:
  assumes "coverageTurningRadius (m_Config p) \<le> 0"
    and "select_candidates env p sourceVertex = Inr sc"
  shows "bestCoverageSamples sc = [] \<and> droppedCoverage sc = []"
  using assms(2) unfolding select_candidates_def
  by (rule coverage_scan_disabled_loop [rotated 3]) (simp_all add: assms(1))

text \<open>The two vertices towards the nearest point are made whatever the coverage turning
  radius is.\<close>

lemma expand_nearest_coverage:
  assumes "\<not> Vertex_done sourceVertex"
    and "distanceTo env (Vertex_state sourceVertex) (getNearestPointAsState env sourceVertex)
           > collisionCheckingIncrement (m_Config p)"
  shows "expand_nearest env p sourceVertex =
     pushVertexQueue
       (pushVertexQueue p (computeTrueCost env (m_Config p)
          (connect env sourceVertex
             ((getNearestPointAsState env sourceVertex)\<lparr>State_speed := maxSpeed (m_Config p)\<rparr>)
             (turningRadius (m_Config p)) False)))
       (computeTrueCost env (m_Config p)
          (connect env sourceVertex
             ((getNearestPointAsState env sourceVertex)\<lparr>State_speed := maxSpeed (m_Config p)\<rparr>)
             (coverageTurningRadius (m_Config p)) True))"
proof -
  have "m_Config (pushVertexQueue p v) = m_Config p" for v
    using push_same_search [of p v] by (simp add: same_search_def)
  then show ?thesis using assms by (simp add: expand_nearest_def Let_def)
qed

lemma example_expand:
  "map_sum id (\<lambda>p. map (\<lambda>v. (State_x (Vertex_state v),
         map_option (\<lambda>e. (Edge_coverage e, Edge_turningRadius e)) (Vertex_parentEdge v)))
       (m_VertexQueue p))
     (expand example_env (pool_planner 2) example_source)
   = Inr [(10, Some (False, 8)), (10, Some (True, 0)), (3, Some (False, 8)), (2, Some (False, 8))]"
  by (simp add: expand_def expand_nearest_def push_best.simps pushVertexQueue_def isRoot_def
      getVertexComparator_def expand_defs example_env_defs example_defs Let_def)

text \<open>C6, as amended: for a positive branching factor the scan of \<^verbatim>\<open>expand\<close> ends with at most
  \<open>branchingFactor\<close> candidates retained by each of the two selections, and every retained
  candidate has an approximate cost no greater than that of any candidate dropped from the
  same selection during the scan; whenever a candidate is dropped for exceeding the bound,
  it is one of greatest approximate cost among those held at that moment.\<close>

theorem bounded_best_k_selection:
  assumes "0 < branchingFactor (m_Config p)" and "branchingFactor (m_Config p) < 2 ^ 31"
  shows "(\<exists>sc. select_candidates env p sourceVertex = Inr sc \<and>
            int (length (bestSamples sc)) \<le> branchingFactor (m_Config p) \<and>
            int (length (bestCoverageSamples sc)) \<le> branchingFactor (m_Config p) \<and>
            (\<forall>r \<in> set (bestSamples sc). \<forall>e \<in> set (dropped sc). approxCost r \<le> approxCost e) \<and>
            (\<forall>r \<in> set (bestCoverageSamples sc). \<forall>e \<in> set (droppedCoverage sc).
                approxCost r \<le> approxCost e)) \<and>
         (is_heap getDubinsComparator best (length best) \<and>
          keep_candidate env (k_branching p) sourceVertex sample radius coverage best = (best', Some e)
            \<longrightarrow> (\<forall>u \<in> set best'. approxCost u \<le> approxCost e))"
proof (intro conjI impI)
  have K: "0 < to_size_t (k_branching p)" "int (to_size_t (k_branching p)) = branchingFactor (m_Config p)"
    using to_size_t_int [OF assms] by (simp_all add: k_branching_def)
  let ?sc0 = "\<lparr>samples = make_heap (getStateComparator env (Vertex_state sourceVertex)) (m_Samples p),
        bestSamples = [], bestCoverageSamples = [],
        regularDone = False,
        coverageDone = (coverageTurningRadius (m_Config p) \<le> 0),
        dropped = [], droppedCoverage = []\<rparr>"
  have "scan_inv (to_size_t (k_branching p)) ?sc0"
    by (simp add: scan_inv_def selection_inv_def is_heap_def)
  from scan_loop_inv [OF this K(1), of env sourceVertex 0]
  obtain sc where sc: "select_candidates env p sourceVertex = Inr sc" "scan_inv (to_size_t (k_branching p)) sc"
    by (auto simp: select_candidates_def)
  have "length (bestSamples sc) \<le> to_size_t (k_branching p)" "length (bestCoverageSamples sc) \<le> to_size_t (k_branching p)"
    using sc(2) by (simp_all add: scan_inv_def selection_inv_def)
  then have "int (length (bestSamples sc)) \<le> branchingFactor (m_Config p)"
    "int (length (bestCoverageSamples sc)) \<le> branchingFactor (m_Config p)"
    using K(2) by linarith+
  then show "\<exists>sc. select_candidates env p sourceVertex = Inr sc \<and>
            int (length (bestSamples sc)) \<le> branchingFactor (m_Config p) \<and>
            int (length (bestCoverageSamples sc)) \<le> branchingFactor (m_Config p) \<and>
            (\<forall>r \<in> set (bestSamples sc). \<forall>e \<in> set (dropped sc). approxCost r \<le> approxCost e) \<and>
            (\<forall>r \<in> set (bestCoverageSamples sc). \<forall>e \<in> set (droppedCoverage sc).
                approxCost r \<le> approxCost e)"
    using sc by (auto simp: scan_inv_def selection_inv_def)
next
  assume "is_heap getDubinsComparator best (length best) \<and>
          keep_candidate env (k_branching p) sourceVertex sample radius coverage best = (best', Some e)"
  then show "\<forall>u \<in> set best'. approxCost u \<le> approxCost e"
    using keep_candidate_drops_worst [of best env "k_branching p" sourceVertex sample radius coverage best' e]
    by blast
qed

lemma example_keep_candidate:
  "is_heap getDubinsComparator [candidate 3] (length [candidate 3]) \<and>
   keep_candidate example_env (k_branching (pool_planner 1)) example_source (example_point 2 0) 8 False [candidate 3]
     = ([candidate 2], Some (candidate 3))"
  by (simp add: is_heap_def candidate_def expand_defs example_env_defs example_defs Let_def)

theorem bounded_best_k_selection_witness:
  "0 < branchingFactor (m_Config (pool_planner 1)) \<and>
   branchingFactor (m_Config (pool_planner 1)) < 2 ^ 31 \<and>
   (\<exists>sc. select_candidates example_env (pool_planner 1) example_source = Inr sc \<and>
      int (length (bestSamples sc)) \<le> branchingFactor (m_Config (pool_planner 1)) \<and>
      int (length (bestCoverageSamples sc)) \<le> branchingFactor (m_Config (pool_planner 1)) \<and>
      (\<forall>r \<in> set (bestSamples sc). \<forall>e \<in> set (dropped sc). approxCost r \<le> approxCost e) \<and>
      (\<forall>r \<in> set (bestCoverageSamples sc). \<forall>e \<in> set (droppedCoverage sc).
          approxCost r \<le> approxCost e)) \<and>
   is_heap getDubinsComparator [candidate 3] (length [candidate 3]) \<and>
   keep_candidate example_env (k_branching (pool_planner 1)) example_source (example_point 2 0) 8 False [candidate 3]
     = ([candidate 2], Some (candidate 3)) \<and>
   approxCost (candidate 2) \<le> approxCost (candidate 3)"
proof -
  have 1: "0 < branchingFactor (m_Config (pool_planner 1))"
    and 2: "branchingFactor (m_Config (pool_planner 1)) < 2 ^ 31"
    by (simp_all add: pool_planner_def)
  from bounded_best_k_selection [OF 1 2, of example_env example_source "[candidate 3]"
      "example_point 2 0" 8 False "[candidate 2]" "candidate 3"] example_keep_candidate 1 2
  show ?thesis by simp
qed

text \<open>The claim as first stated covers every call. The bound needs a positive branching
  factor: \<open>- 1\<close> is converted to the unsigned bound \<open>2\<^sup>6\<^sup>4 - 1\<close>, which no vector reaches, so
  all four samples of the pool are retained; with \<open>0\<close> the first test of the scan reads the
  front of the empty vector.\<close>

theorem nonpositive_branching_factor_counterexample:
  "branchingFactor (m_Config (pool_planner (- 1))) = - 1 \<and>
   retained (select_candidates example_env (pool_planner (- 1)) example_source) = Inr 4 \<and>
   select_candidates example_env (pool_planner 0) example_source = Inl undefined_behaviour"
  by (simp add: retained_def expand_defs example_env_defs example_defs Let_def)

text \<open>C7 says that with \<open>coverageTurningRadius = 0\<close> no call of \<^verbatim>\<open>expand\<close> creates a vertex whose
  parent edge is in coverage mode. The code does not keep to it: the pool scan makes no
  coverage-mode candidate when the coverage turning radius is not positive
  (\<open>coverage_scan_disabled\<close>), but the branch towards the nearest point to cover has no such
  test (\<open>expand_nearest_coverage\<close>). Here the coverage turning radius is 0, the coverage of
  the source vertex is not complete and its nearest point is 10 away (the increment is 1):
  \<^verbatim>\<open>expand\<close> connects a coverage-mode vertex with turning radius 0 and pushes it on the open
  list.\<close>

theorem expand_makes_coverage_vertex_when_disabled:
  "coverageTurningRadius (m_Config (pool_planner 2)) = 0 \<and>
   \<not> Vertex_done example_source \<and>
   queued_edges (expand example_env (pool_planner 2) example_source)
     = Inr {(10, Some (False, 8)), (10, Some (True, 0)), (3, Some (False, 8)), (2, Some (False, 8))}"
proof -
  have "coverageTurningRadius (m_Config (pool_planner 2)) = 0"
    by (simp add: pool_planner_def example_config_def)
  moreover have "\<not> Vertex_done example_source"
    by (simp add: example_source_def example_root_def)
  moreover obtain p where "expand example_env (pool_planner 2) example_source = Inr p"
    and "map (\<lambda>v. (State_x (Vertex_state v),
         map_option (\<lambda>e. (Edge_coverage e, Edge_turningRadius e)) (Vertex_parentEdge v)))
       (m_VertexQueue p)
      = [(10, Some (False, 8)), (10, Some (True, 0)), (3, Some (False, 8)), (2, Some (False, 8))]"
    using example_expand by (cases "expand example_env (pool_planner 2) example_source") simp_all
  ultimately show ?thesis by (simp del: set_map add: queued_edges_def set_map [symmetric])
qed

section \<open>The planning loop: results\<close>

lemma addSamples_loop_fields:
  "addSamples_loop env generator n p = (p', generator') \<Longrightarrow>
   m_Config p' = m_Config p \<and> m_StartStateTime p' = m_StartStateTime p \<and>
   m_RibbonManager p' = m_RibbonManager p \<and>
   m_VertexQueue p' = m_VertexQueue p \<and> length (m_Samples p') = length (m_Samples p) + n"
proof (induction n arbitrary: generator p)
  case 0
  then show ?case by simp
next
  case (Suc n)
  obtain s g where g: "generate env generator = (s, g)" by (cases "generate env generator")
  with Suc.prems have "addSamples_loop env g n (p\<lparr>m_Samples := m_Samples p @ [s]\<rparr>) = (p', generator')"
    by simp
  from Suc.IH [OF this] show ?case by simp
qed

text \<open>A call that returns: when the root already satisfies the goal condition, the plan
  traced from the root is returned, with a pool of 1000 samples left behind.\<close>

lemma plan_returns_root:
  assumes "timeHorizon config \<le> 0"
    and "State_time (Vertex_state (makeRoot env start (m_RibbonManager p)))
           = State_time start"
  shows "\<exists>p'. plan env p ribbonManager start config previousPlan timeRemaining =
           Some (Inr (tracePlan env (makeRoot env start (m_RibbonManager p)) False config, p'))
         \<and> length (m_Samples p') = 1000"
proof -
  let ?p0 = "p\<lparr>m_Config := config, m_StartStateTime := State_time start, m_Samples := [],
     m_VertexQueue := []\<rparr>"
  let ?g = "StateGenerator env (State_x start - maxSpeed config * timeHorizon config)
     (State_x start + maxSpeed config * timeHorizon config)
     (State_y start - maxSpeed config * timeHorizon config)
     (State_y start + maxSpeed config * timeHorizon config) (maxSpeed config) (maxSpeed config) 7
     (m_RibbonManager p)"
  obtain p' g' where a: "addSamples env ?g 1000 ?p0 = (p', g')" by (cases "addSamples env ?g 1000 ?p0")
  then have l: "addSamples_loop env ?g 1000 ?p0 = (p', g')" by (simp add: addSamples_def)
  from addSamples_loop_fields [OF l]
  have f: "m_Config p' = config" "m_StartStateTime p' = State_time start"
    "m_RibbonManager p' = m_RibbonManager p"
    "length (m_Samples p') = 1000" by simp_all
  have "goalCondition p' (makeRoot env start (m_RibbonManager p))"
    using assms f by (simp add: goalCondition_def)
  then have "plan_loop env p' (makeRoot env start (m_RibbonManager p))
      = Some (Inr (makeRoot env start (m_RibbonManager p), p'))"
    by (simp add: plan_loop.simps)
  then show ?thesis using a f by (simp add: plan_def Let_def)
qed

text \<open>A run of the loop with time horizon 2 in the example environment: the root is
  expanded, a vertex of depth 1 is popped and expanded, and the vertex of depth 2 popped
  next, at time 2, satisfies the goal condition.\<close>

lemma example_plan_loop:
  "map_option (map_sum id (\<lambda>(v, p). (State_time (Vertex_state v), Vertex_getDepth v,
       m_ExpandedCount p)))
     (plan_loop example_env short_planner example_source) = Some (Inr (2, 2, 2))"
  by (simp add: plan_loop.simps goalCondition_def popVertexQueue_def short_planner_def
      expand_def expand_nearest_def push_best.simps pushVertexQueue_def isRoot_def
      getVertexComparator_def expand_defs example_env_defs example_defs Let_def)

text \<open>C9: two calls of \<^verbatim>\<open>plan\<close> on the same planner, with the same ribbon manager, start
  state, configuration and previous plan, that differ only in the time remaining have the
  same outcome: the same plan and the same planner state left behind, the same exception,
  or both run forever. The time budget does not enter the search.\<close>

theorem plan_ignores_timeRemaining:
  "plan env p ribbonManager start config previousPlan timeRemaining
     = plan env p ribbonManager start config previousPlan timeRemaining'"
  by (simp add: plan_def)

section \<open>The executive\<close>

text \<open>
  \<^verbatim>\<open>Executive\<close> drives the planner from a background thread. Its trajectory publisher is
  an external collaborator: the calls that change it are recorded in the order they are
  made, and the answers to its queries are inputs. One thread is modelled: what other
  threads do to the flags between two steps is outside the model, and so are sleeping and
  the messages written to \<^verbatim>\<open>cerr\<close>.
\<close>

datatype PublisherCall =
    publishTrajectory "State list"
  | displayTrajectory "State list" bool
  | displayRibbons RibbonManager
  | allDone

record 'map Executive =
  m_Running :: bool
  m_Pause :: bool
  m_RibbonManager :: RibbonManager
  m_LastUpdateTime :: real
  m_LastHeading :: real
  m_LastState :: State
  m_NewMap :: "'map option"
  m_Planner :: "'map option"
  MaxSpeed :: real
  TurningRadius :: real
  CoverageMaxSpeed :: real
  CoverageTurningRadius :: real
  m_TrajectoryPublisher :: "PublisherCall list"

text \<open>What the source file takes from elsewhere: the two constants of the class, whether
  a ribbon manager reports its ribbons done, and \<^verbatim>\<open>State::setEstimate\<close>.\<close>

record ExecutiveWorld =
  c_CoverageHeadingRateMax :: real
  c_PlanningTimeSeconds :: real
  RibbonManager_done :: "RibbonManager \<Rightarrow> bool"
  setEstimate :: "State \<Rightarrow> real \<Rightarrow> State \<Rightarrow> State"

text \<open>What the collaborators answer during one pass of the loop of \<^verbatim>\<open>requestPath\<close>:
  whether \<^verbatim>\<open>m_MapMutex.try_lock()\<close> succeeds, the five readings of \<^verbatim>\<open>getTime()\<close> in the
  order of the source text, the state estimator, and the planner, which returns a
  trajectory or throws.\<close>

record ('map, 'e) Cycle =
  try_lock :: bool
  time_start :: real
  time_estimate :: real
  time_fallback :: real
  time_call :: real
  time_end :: real
  getEstimatedState :: "real \<Rightarrow> State"
  planner_plan :: "'map option \<Rightarrow> RibbonManager \<Rightarrow> State \<Rightarrow> real \<Rightarrow> real \<Rightarrow> real \<Rightarrow> real \<Rightarrow> real
     \<Rightarrow> 'e + State list"





text \<open>\<^verbatim>\<open>pause\<close>, \<^verbatim>\<open>unPause\<close> and \<^verbatim>\<open>terminate\<close>. The flag \<^verbatim>\<open>m_Pause\<close> is read and written
  under the mutex; waking the waiting threads changes no state.\<close>

definition pause :: "'map Executive \<Rightarrow> 'map Executive" where
  "pause ex =
     (if m_Pause ex then ex
      else let ex = ex\<lparr>m_Pause := True\<rparr>
           in if \<not> m_Running ex then ex
              else ex\<lparr>m_TrajectoryPublisher := m_TrajectoryPublisher ex @ [allDone]\<rparr>)"

definition unPause :: "'map Executive \<Rightarrow> 'map Executive" where
  "unPause ex = ex\<lparr>m_Pause := False\<rparr>"

definition terminate :: "'map Executive \<Rightarrow> 'map Executive" where
  "terminate ex = (if \<not> m_Running ex then ex else unPause (ex\<lparr>m_Running := False\<rparr>))"

text \<open>Lines 97 to 103: a staged map is handed to the planner when the lock is free.\<close>

definition adopt_map :: "('map, 'e) Cycle \<Rightarrow> 'map Executive \<Rightarrow> 'map Executive" where
  "adopt_map cy ex =
     (if try_lock cy
      then (case m_NewMap ex of None \<Rightarrow> ex | Some m \<Rightarrow> ex\<lparr>m_Planner := Some m\<rparr>)\<lparr>m_NewMap := None\<rparr>
      else ex)"

text \<open>Lines 111 to 114: the start state, from the estimator or, when the estimator answers
  with time \<open>-1\<close>, extrapolated from the last known state.\<close>

definition startState :: "ExecutiveWorld \<Rightarrow> ('map, 'e) Cycle \<Rightarrow> 'map Executive \<Rightarrow> State" where
  "startState w cy ex =
     (let s = getEstimatedState cy (time_estimate cy + c_PlanningTimeSeconds w)
      in if State_time s = - 1
         then setEstimate w s
                (time_fallback cy + c_PlanningTimeSeconds w - State_time (m_LastState ex))
                (m_LastState ex)
         else s)"

text \<open>Lines 122 to 124: the call of the planner, on the state that \<open>adopt_map\<close> has left.\<close>

definition planner_call ::
  "ExecutiveWorld \<Rightarrow> ('map, 'e) Cycle \<Rightarrow> 'map Executive \<Rightarrow> 'e + State list" where
  "planner_call w cy ex =
     planner_plan cy (m_Planner ex) (m_RibbonManager ex) (startState w cy ex)
       (time_start cy + c_PlanningTimeSeconds w - time_call cy)
       (MaxSpeed ex) (TurningRadius ex) (CoverageMaxSpeed ex) (CoverageTurningRadius ex)"

datatype 'e pass = Finished_path | Planned int | Threw 'e

text \<open>One pass of the loop body, from line 86 on, entered with the loop alive and not
  paused. \<open>Planned ms\<close> carries the time slept at the end of the pass.\<close>

definition requestPath_pass ::
  "ExecutiveWorld \<Rightarrow> ('map, 'e) Cycle \<Rightarrow> 'map Executive \<Rightarrow> 'e pass \<times> 'map Executive" where
  "requestPath_pass w cy ex =
     (if RibbonManager_done w (m_RibbonManager ex) then (Finished_path, pause ex)
      else let ex = ex\<lparr>m_TrajectoryPublisher :=
                         m_TrajectoryPublisher ex @ [displayRibbons (m_RibbonManager ex)]\<rparr>;
               ex = adopt_map cy ex;
               start = time_start cy
           in case planner_call w cy ex of
                Inl e \<Rightarrow> (Threw e, pause ex)
              | Inr plan' \<Rightarrow>
                  (let ex = ex\<lparr>m_TrajectoryPublisher := m_TrajectoryPublisher ex
                                  @ [publishTrajectory plan', displayTrajectory plan' True]\<rparr>;
                       end' = time_end cy;
                       sleeptime = (if end' - start \<le> c_PlanningTimeSeconds w
                                    then \<lfloor>(c_PlanningTimeSeconds w - (end' - start)) * 1000\<rfloor>
                                    else 0)
                   in (Planned sleeptime, ex)))"

datatype 'e run = Returned | Waiting | Thrown 'e | Running

text \<open>\<^verbatim>\<open>requestPath\<close> over the passes whose answers are given: the loop ends when
  \<^verbatim>\<open>m_Running\<close> is false, waits on the condition variable while \<^verbatim>\<open>m_Pause\<close> is true, and
  is left by an exception of the planner, which is rethrown.\<close>

fun requestPath ::
  "ExecutiveWorld \<Rightarrow> ('map, 'e) Cycle list \<Rightarrow> 'map Executive \<Rightarrow> 'e run \<times> 'map Executive" where
  "requestPath w [] ex =
     (if \<not> m_Running ex then (Returned, ex) else if m_Pause ex then (Waiting, ex)
      else (Running, ex))"
| "requestPath w (cy # cys) ex =
     (if \<not> m_Running ex then (Returned, ex) else if m_Pause ex then (Waiting, ex)
      else (case requestPath_pass w cy ex of
              (Threw e, ex') \<Rightarrow> (Thrown e, ex')
            | (Finished_path, ex') \<Rightarrow> requestPath w cys ex'
            | (Planned ms, ex') \<Rightarrow> requestPath w cys ex'))"

text \<open>The state in which the planner is called during a pass.\<close>

definition before_plan :: "('map, 'e) Cycle \<Rightarrow> 'map Executive \<Rightarrow> 'map Executive" where
  "before_plan cy ex =
     adopt_map cy (ex\<lparr>m_TrajectoryPublisher :=
       m_TrajectoryPublisher ex @ [displayRibbons (m_RibbonManager ex)]\<rparr>)"

definition example_executive :: "nat Executive" where
  "example_executive = \<lparr>m_Running = True, m_Pause = False,
     m_RibbonManager = [Add 0 0 10 0], m_LastUpdateTime = 1000, m_LastHeading = 1,
     m_LastState = \<lparr>State_x = 0, State_y = 0, State_heading = 1, State_speed = 2, State_time = 1000\<rparr>,
     m_NewMap = Some 1, m_Planner = None, MaxSpeed = 2, TurningRadius = 8, CoverageMaxSpeed = 2,
     CoverageTurningRadius = 16, m_TrajectoryPublisher = []\<rparr>"

definition example_world :: ExecutiveWorld where
  "example_world = \<lparr>c_CoverageHeadingRateMax = 1 / 10, c_PlanningTimeSeconds = 1,
     RibbonManager_done = (\<lambda>ribbons. False),
     setEstimate = (\<lambda>s dt from. from\<lparr>State_time := State_time from + dt\<rparr>)\<rparr>"

text \<open>A pass in which the planner throws.\<close>

definition failing_cycle :: "(nat, string) Cycle" where
  "failing_cycle = \<lparr>try_lock = True, time_start = 1000, time_estimate = 1000,
     time_fallback = 1000, time_call = 1000, time_end = 1001,
     getEstimatedState = (\<lambda>t. \<lparr>State_x = 0, State_y = 0, State_heading = 1, State_speed = 2,
        State_time = - 1\<rparr>),
     planner_plan = (\<lambda>m ribbons s t v r cv cr. Inl ''Trying to pop an empty vertex queue'')\<rparr>"

lemmas executive_example_defs = example_executive_def example_world_def failing_cycle_def

section \<open>The executive: results\<close>

lemma pause_announces:
  "m_Running ex \<Longrightarrow> \<not> m_Pause ex \<Longrightarrow>
   pause ex = ex\<lparr>m_Pause := True, m_TrajectoryPublisher := m_TrajectoryPublisher ex @ [allDone]\<rparr>"
  by (simp add: pause_def Let_def)

lemma adopt_map_fields:
  "m_Running (adopt_map cy ex) = m_Running ex \<and> m_Pause (adopt_map cy ex) = m_Pause ex \<and>
   m_TrajectoryPublisher (adopt_map cy ex) = m_TrajectoryPublisher ex \<and>
   m_RibbonManager (adopt_map cy ex) = m_RibbonManager ex"
  by (simp add: adopt_map_def split: option.splits)

text \<open>C8: when the planner throws during a pass of the loop of \<^verbatim>\<open>requestPath\<close>, the loop
  calls \<^verbatim>\<open>pause()\<close> and is left by the same exception; \<^verbatim>\<open>pause()\<close>, called with the loop
  alive and not paused, sets the pause flag and calls \<^verbatim>\<open>allDone()\<close> on the trajectory
  publisher. So the last call the publisher receives after a failure of the planner is
  \<^verbatim>\<open>allDone()\<close>.\<close>

theorem planner_exception_pauses_and_announces:
  assumes "m_Running ex" and "\<not> m_Pause ex"
    and "\<not> RibbonManager_done w (m_RibbonManager ex)"
    and "planner_call w cy (before_plan cy ex) = Inl e"
  shows "requestPath w (cy # cys) ex = (Thrown e, pause (before_plan cy ex)) \<and>
         pause (before_plan cy ex) = (before_plan cy ex)\<lparr>m_Pause := True,
           m_TrajectoryPublisher := m_TrajectoryPublisher ex
             @ [displayRibbons (m_RibbonManager ex), allDone]\<rparr> \<and>
         pause ex = ex\<lparr>m_Pause := True,
           m_TrajectoryPublisher := m_TrajectoryPublisher ex @ [allDone]\<rparr>"
proof (intro conjI)
  let ?b = "before_plan cy ex"
  show "requestPath w (cy # cys) ex = (Thrown e, pause ?b)"
    using assms by (simp add: requestPath_pass_def before_plan_def Let_def)
  have "m_Running ?b" "\<not> m_Pause ?b"
    "m_TrajectoryPublisher ?b = m_TrajectoryPublisher ex @ [displayRibbons (m_RibbonManager ex)]"
    using assms(1,2) adopt_map_fields [of cy] by (simp_all add: before_plan_def)
  then show "pause ?b = ?b\<lparr>m_Pause := True,
           m_TrajectoryPublisher := m_TrajectoryPublisher ex
             @ [displayRibbons (m_RibbonManager ex), allDone]\<rparr>"
    by (simp add: pause_announces)
  show "pause ex = ex\<lparr>m_Pause := True,
           m_TrajectoryPublisher := m_TrajectoryPublisher ex @ [allDone]\<rparr>"
    using assms(1,2) by (rule pause_announces)
qed

theorem planner_exception_pauses_and_announces_witness:
  "m_Running example_executive \<and> \<not> m_Pause example_executive \<and>
   \<not> RibbonManager_done example_world (m_RibbonManager example_executive) \<and>
   planner_call example_world failing_cycle (before_plan failing_cycle example_executive)
     = Inl ''Trying to pop an empty vertex queue'' \<and>
   requestPath example_world [failing_cycle] example_executive
     = (Thrown ''Trying to pop an empty vertex queue'',
        example_executive\<lparr>m_Pause := True, m_NewMap := None, m_Planner := Some 1,
          m_TrajectoryPublisher := [displayRibbons [Add 0 0 10 0], allDone]\<rparr>)"
proof -
  have 1: "m_Running example_executive" and 2: "\<not> m_Pause example_executive"
    and 3: "\<not> RibbonManager_done example_world (m_RibbonManager example_executive)"
    by (simp_all add: executive_example_defs)
  have 4: "planner_call example_world failing_cycle (before_plan failing_cycle example_executive)
     = Inl ''Trying to pop an empty vertex queue''"
    by (simp add: planner_call_def failing_cycle_def)
  from planner_exception_pauses_and_announces [OF 1 2 3 4, of "[]"] 1 2 3 4
  show ?thesis
    by (simp add: before_plan_def adopt_map_def executive_example_defs)
qed



end
